theory Spec2Isabelle
  imports Main "HOL-Library.Monad_Syntax" "HOL-Library.Multiset"
begin

section \<open>The B-tree of the database example\<close>

text \<open>
  The Go source declares
  \<^verbatim>\<open>type BTreeNode struct { keys []int; values []string; children []*BTreeNode; leaf bool }\<close>
  and \<^verbatim>\<open>type BTree struct { root *BTreeNode; degree int }\<close>.

  A \<^verbatim>\<open>*BTreeNode\<close> is either the nil pointer or a node, so the pointer type is a datatype
  with the constructor \<open>Nil\<close>. Every node the code creates is referenced from exactly one
  place (its parent's \<open>children\<close>, or \<open>root\<close>), and the backing arrays of the slices are never
  shared between two nodes (\<open>splitChild\<close> copies into fresh arrays), so a node is a value and
  an in-place mutation of a child is the replacement of that child in its parent.

  Go's \<open>int\<close> is modelled as \<open>int\<close>. Keys are only compared. The only arithmetic on the
  degree is \<open>degree-1\<close>, which does not wrap for a degree of at least 2, and \<open>2*degree-1\<close>,
  which is only compared with a slice length. For a degree of at least 2 that product wraps
  from \<open>2^62\<close> on (64-bit \<open>int\<close>), to a negative number or to the largest \<open>int\<close>, which no
  slice length equals; without the wrap it is too large for a slice length as well, so
  \<open>isFull\<close> is false either way. Where a theorem here speaks of every degree, the length
  compared is 0, and \<open>2*degree-1\<close> is odd with and without the wrap.

  A run-time panic (index out of range, slice bounds out of range, nil dereference) is the
  result \<open>None\<close>.
\<close>

datatype BTreeNode =
  Nil
| Node (keys: "int list") (vals: "string list") (children: "BTreeNode list") (leaf: bool)

record BTree =
  root :: BTreeNode
  degree :: int

subsection \<open>Go's slice operations\<close>

text \<open>\<open>xs[i]\<close> as a value.\<close>
definition index :: "'a list \<Rightarrow> int \<Rightarrow> 'a option" where
  "index xs i = (if 0 \<le> i \<and> i < int (length xs) then Some (xs ! nat i) else None)"

text \<open>\<open>xs[i] = v\<close>.\<close>
definition assign :: "'a list \<Rightarrow> int \<Rightarrow> 'a \<Rightarrow> 'a list option" where
  "assign xs i v = (if 0 \<le> i \<and> i < int (length xs) then Some (xs[nat i := v]) else None)"

text \<open>\<open>xs[lo:]\<close>.\<close>
definition slice_from :: "'a list \<Rightarrow> int \<Rightarrow> 'a list option" where
  "slice_from xs lo = (if 0 \<le> lo \<and> lo \<le> int (length xs) then Some (drop (nat lo) xs) else None)"

text \<open>
  \<open>xs[:hi]\<close>. Go allows \<open>hi\<close> up to the capacity; every use in \<open>splitChild\<close> comes after
  a successful \<open>xs[hi+1:]\<close> or \<open>xs[hi:]\<close> of the same slice, so \<open>hi\<close> is within the length there.
\<close>
definition slice_to :: "'a list \<Rightarrow> int \<Rightarrow> 'a list option" where
  "slice_to xs hi = (if 0 \<le> hi \<and> hi \<le> int (length xs) then Some (take (nat hi) xs) else None)"

declare Option.bind_cong [fundef_cong]

subsection \<open>NewBTree, Search\<close>

definition NewBTree :: "int \<Rightarrow> BTree" where
  "NewBTree d = \<lparr>root = Node [] [] [] True, degree = d\<rparr>"

text \<open>The loop \<^verbatim>\<open>for i < len(node.keys) && key > node.keys[i] { i++ }\<close>.\<close>
function searchNode_loop :: "int list \<Rightarrow> int \<Rightarrow> int \<Rightarrow> int option" where
  "searchNode_loop ks key i =
     (if i < int (length ks) then do {
        ki \<leftarrow> index ks i;
        if key > ki then searchNode_loop ks key (i + 1) else Some i }
      else Some i)"
  by pat_completeness auto
termination
  by (relation "measure (\<lambda>(ks, key, i). nat (int (length ks) - i))") auto

declare searchNode_loop.simps [simp del]

function searchNode :: "BTreeNode \<Rightarrow> int \<Rightarrow> (string \<times> bool) option" where
  "searchNode Nil key = None"
| "searchNode (Node ks vs cs lf) key = do {
     i \<leftarrow> searchNode_loop ks key 0;
     hit \<leftarrow> (if i < int (length ks) then do { ki \<leftarrow> index ks i; Some (key = ki) } else Some False);
     if hit then do { v \<leftarrow> index vs i; Some (v, True) }
     else if lf then Some ('''', False)
     else do { c \<leftarrow> index cs i; searchNode c key } }"
  by pat_completeness auto

lemma index_size: "index cs i = Some c \<Longrightarrow> size c < Suc (size_list size cs)"
  by (auto simp: index_def less_Suc_eq_le intro!: size_list_estimation' split: if_splits)

termination searchNode
  by (relation "measure (\<lambda>(n, key). size n)") (auto dest: index_size)

definition Search :: "BTree \<Rightarrow> int \<Rightarrow> (string \<times> bool) option" where
  "Search bt key = searchNode (root bt) key"

subsection \<open>Insert\<close>

fun isFull :: "int \<Rightarrow> BTreeNode \<Rightarrow> bool option" where
  "isFull d Nil = None"
| "isFull d (Node ks vs cs lf) = Some (int (length ks) = 2 * d - 1)"

text \<open>
  The loop of \<open>splitChild\<close>,
  \<^verbatim>\<open>for i := len(parent.keys) - 1; i > index; i-- {
       parent.keys[i] = parent.keys[i-1]
       parent.values[i] = parent.values[i-1]
       parent.children[i+1] = parent.children[i] }\<close>
\<close>
function splitChild_loop ::
  "int list \<Rightarrow> string list \<Rightarrow> BTreeNode list \<Rightarrow> int \<Rightarrow> int
     \<Rightarrow> (int list \<times> string list \<times> BTreeNode list) option" where
  "splitChild_loop ks vs cs i idx =
     (if i > idx then do {
        k \<leftarrow> index ks (i - 1);
        ks' \<leftarrow> assign ks i k;
        v \<leftarrow> index vs (i - 1);
        vs' \<leftarrow> assign vs i v;
        c \<leftarrow> index cs i;
        cs' \<leftarrow> assign cs (i + 1) c;
        splitChild_loop ks' vs' cs' (i - 1) idx }
      else Some (ks, vs, cs))"
  by pat_completeness auto
termination
  by (relation "measure (\<lambda>(ks, vs, cs, i, idx). nat (i - idx))") auto

declare splitChild_loop.simps [simp del]

fun splitChild :: "int \<Rightarrow> BTreeNode \<Rightarrow> int \<Rightarrow> BTreeNode option" where
  "splitChild d Nil idx = None"
| "splitChild d (Node pks pvs pcs plf) idx = do {
     fullChild \<leftarrow> index pcs idx;
     case fullChild of
       Nil \<Rightarrow> None
     | Node fks fvs fcs flf \<Rightarrow> do {
         let mid = d - 1;
         nks \<leftarrow> slice_from fks (mid + 1);
         nvs \<leftarrow> slice_from fvs (mid + 1);
         (ncs, fcs') \<leftarrow>
           (if \<not> flf then do {
              ncs \<leftarrow> slice_from fcs (mid + 1);
              fcs' \<leftarrow> slice_to fcs (mid + 1);
              Some (ncs, fcs') }
            else Some ([], fcs));
         let newChild = Node nks nvs ncs flf;
         (pks1, pvs1, pcs1) \<leftarrow>
           splitChild_loop (pks @ [0]) (pvs @ ['''']) (pcs @ [Nil]) (int (length (pks @ [0])) - 1) idx;
         k \<leftarrow> index fks mid;
         pks2 \<leftarrow> assign pks1 idx k;
         v \<leftarrow> index fvs mid;
         pvs2 \<leftarrow> assign pvs1 idx v;
         pcs2 \<leftarrow> assign pcs1 (idx + 1) newChild;
         fks' \<leftarrow> slice_to fks mid;
         fvs' \<leftarrow> slice_to fvs mid;
         pcs3 \<leftarrow> assign pcs2 idx (Node fks' fvs' fcs' flf);
         Some (Node pks2 pvs2 pcs3 plf) } }"

declare splitChild.simps(2) [simp del]

text \<open>
  The leaf loop of \<open>insertNonFull\<close>,
  \<^verbatim>\<open>for i >= 0 && key < node.keys[i] {
       node.keys[i+1] = node.keys[i]; node.values[i+1] = node.values[i]; i-- }\<close>
\<close>
function insertNonFull_shift ::
  "int list \<Rightarrow> string list \<Rightarrow> int \<Rightarrow> int \<Rightarrow> (int list \<times> string list \<times> int) option" where
  "insertNonFull_shift ks vs key i =
     (if i \<ge> 0 then do {
        ki \<leftarrow> index ks i;
        if key < ki then do {
          ks' \<leftarrow> assign ks (i + 1) ki;
          vi \<leftarrow> index vs i;
          vs' \<leftarrow> assign vs (i + 1) vi;
          insertNonFull_shift ks' vs' key (i - 1) }
        else Some (ks, vs, i) }
      else Some (ks, vs, i))"
  by pat_completeness auto
termination
  by (relation "measure (\<lambda>(ks, vs, key, i). nat (i + 1))") auto

declare insertNonFull_shift.simps [simp del]

text \<open>The loop of an internal node, \<^verbatim>\<open>for i >= 0 && key < node.keys[i] { i-- }\<close>.\<close>
function insertNonFull_scan :: "int list \<Rightarrow> int \<Rightarrow> int \<Rightarrow> int option" where
  "insertNonFull_scan ks key i =
     (if i \<ge> 0 then do {
        ki \<leftarrow> index ks i;
        if key < ki then insertNonFull_scan ks key (i - 1) else Some i }
      else Some i)"
  by pat_completeness auto
termination
  by (relation "measure (\<lambda>(ks, key, i). nat (i + 1))") auto

declare insertNonFull_scan.simps [simp del]

subsection \<open>Termination of insertNonFull\<close>

lemma size_list_take: "size_list f (take n xs) \<le> size_list f xs"
  by (induction xs arbitrary: n) (auto simp: take_Cons')

lemma size_list_drop: "size_list f (drop n xs) \<le> size_list f xs"
proof (induction xs arbitrary: n)
  case (Cons a xs)
  show ?case using Cons[of "n - 1"] by (cases n) (auto simp: le_SucI trans_le_add2)
qed simp

lemma assign_Some:
  "assign xs i v = Some ys \<longleftrightarrow> 0 \<le> i \<and> i < int (length xs) \<and> ys = xs[nat i := v]"
  by (auto simp: assign_def)

lemma index_Some:
  "index xs i = Some y \<longleftrightarrow> 0 \<le> i \<and> i < int (length xs) \<and> y = xs ! nat i"
  by (auto simp: index_def)

lemma slice_from_Some:
  "slice_from xs i = Some ys \<longleftrightarrow> 0 \<le> i \<and> i \<le> int (length xs) \<and> ys = drop (nat i) xs"
  by (auto simp: slice_from_def)

lemma slice_to_Some:
  "slice_to xs i = Some ys \<longleftrightarrow> 0 \<le> i \<and> i \<le> int (length xs) \<and> ys = take (nat i) xs"
  by (auto simp: slice_to_def)

text \<open>What a \<open>splitChild\<close> that returns has checked and built.\<close>
lemma splitChild_SomeD:
  assumes "splitChild d (Node pks pvs pcs plf) idx = Some p'"
  obtains fks fvs fcs flf pks1 pvs1 pcs1 where
    "0 \<le> idx" "idx < int (length pcs)" "pcs ! nat idx = Node fks fvs fcs flf"
    "1 \<le> d" "d \<le> int (length fks)" "d \<le> int (length fvs)" "\<not> flf \<Longrightarrow> d \<le> int (length fcs)"
    "splitChild_loop (pks @ [0]) (pvs @ ['''']) (pcs @ [Nil]) (int (length pks)) idx
       = Some (pks1, pvs1, pcs1)"
    "idx < int (length pks1)" "idx < int (length pvs1)" "idx + 1 < int (length pcs1)"
    "p' = Node (pks1[nat idx := fks ! nat (d - 1)]) (pvs1[nat idx := fvs ! nat (d - 1)])
          (pcs1[nat (idx + 1) := Node (drop (nat d) fks) (drop (nat d) fvs)
                                   (if flf then [] else drop (nat d) fcs) flf,
                nat idx := Node (take (nat (d - 1)) fks) (take (nat (d - 1)) fvs)
                             (if flf then fcs else take (nat d) fcs) flf])
          plf"
proof -
  from assms obtain fc where 1: "index pcs idx = Some fc"
    by (auto simp: splitChild.simps Option.bind_eq_Some_conv)
  show ?thesis
  proof (cases fc)
    case Nil
    with assms 1 show ?thesis by (simp add: splitChild.simps)
  next
    case (Node fks fvs fcs flf)
    with assms 1 show ?thesis
      apply (simp add: splitChild.simps Let_def Option.bind_eq_Some_conv assign_Some index_Some
          slice_from_Some slice_to_Some split: if_splits prod.splits)
       apply (elim exE conjE)
       apply (rule that[of fks fvs fcs flf]; force)
      apply (elim exE conjE)
      apply (rule that[of fks fvs fcs flf]; force)
      done
  qed
qed

lemma splitChild_size:
  assumes "splitChild d (Node ks vs cs lf) i = Some (Node ks' vs' cs' lf')"
    and "index cs' j = Some c" and "j = i \<or> j = i + 1"
  shows "size c < Suc (size_list size cs)"
proof -
  from assms(1) obtain fks fvs fcs flf pks1 pvs1 pcs1 where
    h: "0 \<le> i" "i < int (length cs)" "cs ! nat i = Node fks fvs fcs flf"
    "i + 1 < int (length pcs1)"
    "cs' = pcs1[nat (i + 1) := Node (drop (nat d) fks) (drop (nat d) fvs)
                                 (if flf then [] else drop (nat d) fcs) flf,
                nat i := Node (take (nat (d - 1)) fks) (take (nat (d - 1)) fvs)
                           (if flf then fcs else take (nat d) fcs) flf]"
    by (elim splitChild_SomeD) simp
  have "size (cs ! nat i) < Suc (size_list size cs)"
    using h(1,2) by (intro index_size[of cs i]) (simp add: index_def)
  then have f: "size_list size fcs < size_list size cs"
    using h(3) by simp
  have ne: "nat (i + 1) \<noteq> nat i"
    using h(1) by simp
  from assms(2,3) h(1,4,5) ne
  have "c = Node (drop (nat d) fks) (drop (nat d) fvs) (if flf then [] else drop (nat d) fcs) flf
      \<or> c = Node (take (nat (d - 1)) fks) (take (nat (d - 1)) fvs)
               (if flf then fcs else take (nat d) fcs) flf"
    by (auto simp: index_Some)
  then show ?thesis
    using f size_list_take[of size "nat d" fcs] size_list_drop[of size "nat d" fcs] by auto
qed

text \<open>
  The internal-node branch of \<open>insertNonFull\<close> up to its recursive call: the scan for the
  child index, the split of a full child, and the choice between the two halves. It returns
  the node as it then is and the index \<open>i\<close> of the child the recursive call is made on.
\<close>
fun insertNonFull_descend :: "int \<Rightarrow> BTreeNode \<Rightarrow> int \<Rightarrow> (BTreeNode \<times> int) option" where
  "insertNonFull_descend d Nil key = None"
| "insertNonFull_descend d (Node ks vs cs lf) key = do {
     i1 \<leftarrow> insertNonFull_scan ks key (int (length ks) - 1);
     let i2 = i1 + 1;
     child \<leftarrow> index cs i2;
     full \<leftarrow> isFull d child;
     if full then do {
       node' \<leftarrow> splitChild d (Node ks vs cs lf) i2;
       case node' of
         Nil \<Rightarrow> None
       | Node ks' vs' cs' lf' \<Rightarrow> do {
           ki \<leftarrow> index ks' i2;
           Some (node', if key > ki then i2 + 1 else i2) } }
     else Some (Node ks vs cs lf, i2) }"

declare insertNonFull_descend.simps(2) [simp del]

lemma insertNonFull_descend_size:
  assumes "insertNonFull_descend d (Node ks vs cs lf) key = Some (Node ks' vs' cs' lf', i)"
    and "index cs' i = Some c"
  shows "size c < Suc (size_list size cs)"
proof -
  from assms(1) obtain i1 child full where
    a: "index cs (i1 + 1) = Some child" "isFull d child = Some full"
    and b: "(if full then do {
               node' \<leftarrow> splitChild d (Node ks vs cs lf) (i1 + 1);
               case node' of
                 Nil \<Rightarrow> None
               | Node ks' vs' cs' lf' \<Rightarrow> do {
                   ki \<leftarrow> index ks' (i1 + 1);
                   Some (node', if key > ki then i1 + 1 + 1 else i1 + 1) } }
             else Some (Node ks vs cs lf, i1 + 1)) = Some (Node ks' vs' cs' lf', i)"
    unfolding insertNonFull_descend.simps Let_def Option.bind_eq_Some_conv by blast
  show ?thesis
  proof (cases full)
    case True
    with b obtain node' where n: "splitChild d (Node ks vs cs lf) (i1 + 1) = Some node'"
      and m: "(case node' of
                 Nil \<Rightarrow> None
               | Node ks' vs' cs' lf' \<Rightarrow> do {
                   ki \<leftarrow> index ks' (i1 + 1);
                   Some (node', if key > ki then i1 + 1 + 1 else i1 + 1) })
              = Some (Node ks' vs' cs' lf', i)"
      by (auto simp: Option.bind_eq_Some_conv)
    from m have "node' = Node ks' vs' cs' lf'" and "i = i1 + 1 \<or> i = i1 + 1 + 1"
      by (cases node'; auto simp: Option.bind_eq_Some_conv split: if_splits)+
    with n assms(2) show ?thesis
      using splitChild_size[of d ks vs cs lf "i1 + 1" ks' vs' cs' lf' i c] by simp
  next
    case False
    with b a assms(2) show ?thesis
      by (auto dest: index_size)
  qed
qed

function insertNonFull :: "int \<Rightarrow> BTreeNode \<Rightarrow> int \<Rightarrow> string \<Rightarrow> BTreeNode option" where
  "insertNonFull d Nil key value = None"
| "insertNonFull d (Node ks vs cs lf) key value =
    (if lf then do {
       (ks1, vs1, i) \<leftarrow> insertNonFull_shift (ks @ [0]) (vs @ ['''']) key (int (length ks) - 1);
       ks2 \<leftarrow> assign ks1 (i + 1) key;
       vs2 \<leftarrow> assign vs1 (i + 1) value;
       Some (Node ks2 vs2 cs lf) }
     else do {
       (node', i) \<leftarrow> insertNonFull_descend d (Node ks vs cs lf) key;
       case node' of
         Nil \<Rightarrow> None
       | Node ks' vs' cs' lf' \<Rightarrow> do {
           c \<leftarrow> index cs' i;
           c' \<leftarrow> insertNonFull d c key value;
           cs'' \<leftarrow> assign cs' i c';
           Some (Node ks' vs' cs'' lf') } })"
  by pat_completeness auto
termination
  by (relation "measure (\<lambda>(d, n, key, value). size n)")
    (auto dest: insertNonFull_descend_size)

declare insertNonFull.simps(2) [simp del]

text \<open>
  The first statement of \<open>Insert\<close>: when the root is full, a new root is put above it and
  the old root is split. The result is the tree on whose root \<open>insertNonFull\<close> is then called.
\<close>
definition Insert_root :: "BTree \<Rightarrow> BTree option" where
  "Insert_root bt = do {
     full \<leftarrow> isFull (degree bt) (root bt);
     if full then do {
       let newRoot = Node [] [] [] False;
       let newRoot = Node (keys newRoot) (vals newRoot) (children newRoot @ [root bt]) (leaf newRoot);
       newRoot' \<leftarrow> splitChild (degree bt) newRoot 0;
       Some (bt\<lparr>root := newRoot'\<rparr>) }
     else Some bt }"

definition Insert :: "BTree \<Rightarrow> int \<Rightarrow> string \<Rightarrow> BTree option" where
  "Insert bt key value = do {
     bt1 \<leftarrow> Insert_root bt;
     r \<leftarrow> insertNonFull (degree bt1) (root bt1) key value;
     Some (bt1\<lparr>root := r\<rparr>) }"

text \<open>A sequence of \<open>Insert\<close> calls, one after the other on the same tree.\<close>
fun Inserts :: "BTree \<Rightarrow> (int \<times> string) list \<Rightarrow> BTree option" where
  "Inserts bt [] = Some bt"
| "Inserts bt ((key, value) # kvs) = Insert bt key value \<bind> (\<lambda>bt'. Inserts bt' kvs)"

text \<open>The twelve \<open>Insert\<close> calls of \<open>main\<close>.\<close>
definition main_records :: "(int \<times> string) list" where
  "main_records =
     [(1, ''Record 1''), (3, ''Record 3''), (7, ''Record 7''), (10, ''Record 10''),
      (11, ''Record 11''), (13, ''Record 13''), (14, ''Record 14''), (15, ''Record 15''),
      (18, ''Record 18''), (16, ''Record 16''), (19, ''Record 19''), (24, ''Record 24'')]"

section \<open>The loops in closed form\<close>

text \<open>Where the right-to-left scans of \<open>insertNonFull\<close> stop: the number of keys up to and
  including the last one that is not greater than \<open>key\<close>.\<close>
definition ipos :: "int list \<Rightarrow> int \<Rightarrow> nat" where
  "ipos ks key = length (dropWhile (\<lambda>x. key < x) (rev ks))"

lemma ipos_snoc: "ipos (xs @ [x]) key = (if key < x then ipos xs key else Suc (length xs))"
  by (simp add: ipos_def)

lemma ipos_le: "ipos ks key \<le> length ks"
  unfolding ipos_def using length_dropWhile_le[of _ "rev ks"] by simp

lemma insertNonFull_scan_eq:
  "insertNonFull_scan (xs @ ys) key (int (length xs) - 1) = Some (int (ipos xs key) - 1)"
proof (induction xs arbitrary: ys rule: rev_induct)
  case Nil
  show ?case by (simp add: insertNonFull_scan.simps ipos_def)
next
  case (snoc x xs)
  have "insertNonFull_scan ((xs @ [x]) @ ys) key (int (length (xs @ [x])) - 1)
      = (if key < x then insertNonFull_scan (xs @ x # ys) key (int (length xs) - 1)
         else Some (int (length xs)))"
    by (subst insertNonFull_scan.simps) (simp add: nth_append index_def)
  then show ?case using snoc[of "x # ys"] by (simp add: ipos_snoc)
qed

lemma insertNonFull_shift_eq:
  assumes "length us = length xs"
  shows "\<exists>ks1 vs1. insertNonFull_shift (xs @ y # ys) (us @ w # ws) key (int (length xs) - 1)
            = Some (ks1, vs1, int (ipos xs key) - 1)
          \<and> ks1[ipos xs key := k] = take (ipos xs key) xs @ k # drop (ipos xs key) xs @ ys
          \<and> vs1[ipos xs key := v] = take (ipos xs key) us @ v # drop (ipos xs key) us @ ws"
  using assms
proof (induction xs arbitrary: us y ys w ws rule: rev_induct)
  case Nil
  then show ?case by (simp add: insertNonFull_shift.simps ipos_def)
next
  case (snoc x xs)
  from snoc.prems obtain u us' where us: "us = us' @ [u]" "length us' = length xs"
    by (cases us rule: rev_cases) auto
  show ?case
  proof (cases "key < x")
    case True
    have "insertNonFull_shift ((xs @ [x]) @ y # ys) (us @ w # ws) key (int (length (xs @ [x])) - 1)
        = insertNonFull_shift (xs @ x # x # ys) (us' @ u # u # ws) key (int (length xs) - 1)"
      using True us by (subst insertNonFull_shift.simps) (simp add: nth_append list_update_append index_def assign_def nat_add_distrib)
    moreover have "ipos xs key \<le> length xs" by (rule ipos_le)
    ultimately show ?thesis
      using snoc.IH[of us' x "x # ys" u "u # ws"] us True by (simp add: ipos_snoc)
  next
    case False
    have "insertNonFull_shift ((xs @ [x]) @ y # ys) (us @ w # ws) key (int (length (xs @ [x])) - 1)
        = Some ((xs @ [x]) @ y # ys, us @ w # ws, int (length xs))"
      using False us by (subst insertNonFull_shift.simps) (simp add: nth_append index_def)
    then show ?thesis
      using False us by (simp add: ipos_snoc list_update_append)
  qed
qed

lemma splitChild_loop_eq:
  assumes "length A1 = idx" "length U1 = idx" "length C1 = Suc idx"
    "length U2 = length A2" "length C2 = length A2"
  shows "\<exists>ks vs cs.
      splitChild_loop (A1 @ A2 @ y # B) (U1 @ U2 @ w # W) (C1 @ C2 @ c # D)
        (int (idx + length A2)) (int idx) = Some (ks, vs, cs)
      \<and> (\<forall>k. ks[idx := k] = A1 @ k # A2 @ B)
      \<and> (\<forall>v. vs[idx := v] = U1 @ v # U2 @ W)
      \<and> (\<forall>x. cs[Suc idx := x] = C1 @ x # C2 @ D)"
  using assms
proof (induction A2 arbitrary: y B U2 w W C2 c D rule: rev_induct)
  case Nil
  then show ?case
    by (subst splitChild_loop.simps) (simp add: list_update_append)
next
  case (snoc a A2)
  from snoc.prems obtain u U2' where U2: "U2 = U2' @ [u]" "length U2' = length A2"
    by (cases U2 rule: rev_cases) auto
  from snoc.prems obtain c2 C2' where C2: "C2 = C2' @ [c2]" "length C2' = length A2"
    by (cases C2 rule: rev_cases) auto
  have "splitChild_loop (A1 @ (A2 @ [a]) @ y # B) (U1 @ U2 @ w # W) (C1 @ C2 @ c # D)
          (int (idx + length (A2 @ [a]))) (int idx)
      = splitChild_loop (A1 @ A2 @ a # a # B) (U1 @ U2' @ u # u # W) (C1 @ C2' @ c2 # c2 # D)
          (int (idx + length A2)) (int idx)"
    using snoc.prems U2 C2
    apply (subst splitChild_loop.simps)
    apply (simp add: nth_append list_update_append index_def assign_def nat_add_distrib)
    done
  then show ?case
    using snoc.IH[of U2' C2' a "a # B" u "u # W" c2 "c2 # D"] snoc.prems U2 C2 by simp
qed

lemma take_Suc_update: "i < length xs \<Longrightarrow> (take (Suc i) xs)[i := x] = take i xs @ [x]"
  by (simp add: take_Suc_conv_app_nth list_update_append)

lemma splitChild_eq:
  assumes "idx < length pcs" "length pvs = length pks" "length pcs = Suc (length pks)"
    "pcs ! idx = Node fks fvs fcs flf"
    "1 \<le> d" "d \<le> int (length fks)" "d \<le> int (length fvs)" "\<not> flf \<Longrightarrow> d \<le> int (length fcs)"
  shows "splitChild d (Node pks pvs pcs plf) (int idx) =
    Some (Node (take idx pks @ fks ! nat (d - 1) # drop idx pks)
               (take idx pvs @ fvs ! nat (d - 1) # drop idx pvs)
               (take idx pcs
                 @ Node (take (nat (d - 1)) fks) (take (nat (d - 1)) fvs)
                        (if flf then fcs else take (nat d) fcs) flf
                 # Node (drop (nat d) fks) (drop (nat d) fvs)
                        (if flf then [] else drop (nat d) fcs) flf
                 # drop (Suc idx) pcs)
               plf)"
proof -
  let ?L = "Node (take (nat (d - 1)) fks) (take (nat (d - 1)) fvs)
                        (if flf then fcs else take (nat d) fcs) flf"
  let ?R = "Node (drop (nat d) fks) (drop (nat d) fvs)
                        (if flf then [] else drop (nat d) fcs) flf"
  have idx: "idx \<le> length pks" using assms(1,3) by simp
  have td: "take n xs @ drop n xs @ ys = xs @ ys" for n and xs ys :: "'a list"
    by (simp flip: append_assoc)
  have "length (take idx pks) = idx" "length (take idx pvs) = idx"
    "length (take (Suc idx) pcs) = Suc idx" "length (drop idx pvs) = length (drop idx pks)"
    "length (drop (Suc idx) pcs) = length (drop idx pks)"
    "int (idx + length (drop idx pks)) = int (length pks)"
    using assms(1,2,3) idx by simp_all
  from splitChild_loop_eq[OF this(1-5), of 0 "[]" "''''" "[]" Nil "[]"] this(6)
  obtain ks vs cs where
    loop: "splitChild_loop (pks @ [0]) (pvs @ ['''']) (pcs @ [Nil]) (int (length pks)) (int idx)
            = Some (ks, vs, cs)"
    and ks: "\<And>k. ks[idx := k] = take idx pks @ k # drop idx pks"
    and vs: "\<And>v. vs[idx := v] = take idx pvs @ v # drop idx pvs"
    and cs: "\<And>x. cs[Suc idx := x] = take (Suc idx) pcs @ x # drop (Suc idx) pcs"
    unfolding td by auto
  have lks: "length ks = Suc (length pks)"
    using arg_cong[OF ks[of 0], of length] idx by simp
  have lvs: "length vs = Suc (length pks)"
    using arg_cong[OF vs[of "''''"], of length] idx assms(2) by simp
  have lcs: "length cs = Suc (Suc (length pks))"
    using arg_cong[OF cs[of Nil], of length] assms(1,3) by simp
  have cs2: "cs[Suc idx := R, idx := L] = take idx pcs @ L # R # drop (Suc idx) pcs" for L R
    using assms(1) by (simp add: cs list_update_append take_Suc_update)
  have d: "nat (d - 1 + 1) = nat d" "d - 1 + 1 = d" by simp_all
  show ?thesis
    unfolding splitChild.simps
    using assms idx loop lks lvs lcs
    by (simp add: index_def assign_def slice_from_def slice_to_def Let_def ks vs cs2 nat_add_distrib)
qed

section \<open>The in-order walk and the shape of a tree\<close>

text \<open>
  The source has no traversal. The in-order walk of a subtree is defined here, as the list of
  the key/value pairs it stores: for an internal node with children \<open>c0, c1, ..., cm\<close> and own
  pairs \<open>k0, ..., k(m-1)\<close> it is the walk of \<open>c0\<close>, then \<open>k0\<close>, then the walk of \<open>c1\<close>, then
  \<open>k1\<close>, and so on up to the walk of \<open>cm\<close>; for a leaf it is the leaf's pairs. \<open>interleave\<close>
  drops nothing, whatever the two lengths are.
\<close>
fun interleave :: "'a list list \<Rightarrow> 'a list \<Rightarrow> 'a list" where
  "interleave [] ks = ks"
| "interleave (c # cs) [] = c @ concat cs"
| "interleave (c # cs) (k # ks) = c @ k # interleave cs ks"

fun entries :: "BTreeNode \<Rightarrow> (int \<times> string) list" where
  "entries Nil = []"
| "entries (Node ks vs cs lf) = (if lf then zip ks vs else interleave (map entries cs) (zip ks vs))"

text \<open>The walk up to a child, and the walk from the key after a child on.\<close>
fun walk_pre :: "'a list list \<Rightarrow> 'a list \<Rightarrow> 'a list" where
  "walk_pre (c # cs) (k # ks) = c @ k # walk_pre cs ks"
| "walk_pre cs ks = []"

fun walk_rest :: "'a list \<Rightarrow> 'a list list \<Rightarrow> 'a list" where
  "walk_rest [] cs = concat cs"
| "walk_rest (k # ks) cs = k # interleave cs ks"

lemma inter_Cons: "interleave (c # cs) ks = c @ walk_rest ks cs"
  by (cases ks) simp_all

lemma inter_pre: "length xs = length ks1 \<Longrightarrow> interleave (xs @ ys) (ks1 @ ks2) = walk_pre xs ks1 @ interleave ys ks2"
  by (induction xs ks1 rule: list_induct2) simp_all

lemma inter_two:
  "length xs = length ks1 \<Longrightarrow>
   interleave (xs @ l # r # ys) (ks1 @ m # ks2) = walk_pre xs ks1 @ l @ m # r @ walk_rest ks2 ys"
  by (simp add: inter_pre inter_Cons)

lemma inter_one:
  "length xs = length ks1 \<Longrightarrow> interleave (xs @ c # ys) (ks1 @ ks2) = walk_pre xs ks1 @ c @ walk_rest ks2 ys"
  by (simp add: inter_pre inter_Cons)

lemma inter_append:
  "length xs = Suc (length ks1) \<Longrightarrow>
   interleave (xs @ ys) (ks1 @ k # ks2) = interleave xs ks1 @ k # interleave ys ks2"
proof (induction xs arbitrary: ks1)
  case Nil
  then show ?case by simp
next
  case (Cons c xs)
  then show ?case by (cases ks1) auto
qed

lemma pre_snoc: "length xs = length ks \<Longrightarrow> walk_pre (xs @ [x]) (ks @ [k]) = walk_pre xs ks @ x @ [k]"
  by (induction xs ks rule: list_induct2) simp_all

lemma pre_last:
  assumes "length xs = length ks" "ks \<noteq> []"
  shows "\<exists>A. walk_pre xs ks = A @ [last ks]"
proof -
  from assms obtain ks' k where ks: "ks = ks' @ [k]" by (cases ks rule: rev_cases) auto
  with assms obtain xs' x where xs: "xs = xs' @ [x]" "length xs' = length ks'"
    by (cases xs rule: rev_cases) auto
  show ?thesis unfolding ks xs(1) using xs(2) by (simp add: pre_snoc)
qed

lemma ipos_gt: "ipos ks key < length ks \<Longrightarrow> key < ks ! ipos ks key"
proof (induction ks rule: rev_induct)
  case (snoc x ks)
  then show ?case using ipos_le[of ks key]
    by (auto simp: ipos_snoc nth_append split: if_splits)
qed simp

lemma ipos_le_key: "0 < ipos ks key \<Longrightarrow> ks ! (ipos ks key - 1) \<le> key"
proof (induction ks rule: rev_induct)
  case (snoc x ks)
  then show ?case using ipos_le[of ks key]
    by (auto simp: ipos_snoc nth_append split: if_splits)
qed (simp add: ipos_def)

lemma ipos_drop: "\<forall>x \<in> set (drop (ipos ks key) ks). key < x"
proof (induction ks rule: rev_induct)
  case (snoc x ks)
  then show ?case using ipos_le[of ks key] by (auto simp: ipos_snoc)
qed simp

text \<open>The shape of a well-formed subtree of height \<open>h\<close>; \<open>r\<close> says the node is the root,
  which is exempt from the lower bound on its number of keys.\<close>
fun wfnode :: "int \<Rightarrow> nat \<Rightarrow> bool \<Rightarrow> BTreeNode \<Rightarrow> bool" where
  "wfnode d h r Nil = False"
| "wfnode d 0 r (Node ks vs cs lf) =
     (lf \<and> cs = [] \<and> length vs = length ks
      \<and> (r \<or> d - 1 \<le> int (length ks)) \<and> int (length ks) \<le> 2 * d - 1)"
| "wfnode d (Suc h) r (Node ks vs cs lf) =
     (\<not> lf \<and> length cs = Suc (length ks) \<and> length vs = length ks
      \<and> (r \<or> d - 1 \<le> int (length ks)) \<and> int (length ks) \<le> 2 * d - 1
      \<and> (\<forall>c \<in> set cs. wfnode d h False c))"

text \<open>
  \<open>ys\<close> is \<open>xs\<close> with the pair \<open>kv\<close> put in at a place where no key before it is greater and
  no key after it is less.
\<close>
definition is_ins :: "(int \<times> string) \<Rightarrow> (int \<times> string) list \<Rightarrow> (int \<times> string) list \<Rightarrow> bool" where
  "is_ins kv xs ys \<longleftrightarrow>
     (\<exists>A B. xs = A @ B \<and> ys = A @ kv # B
        \<and> (\<forall>a \<in> set A. fst a \<le> fst kv) \<and> (\<forall>b \<in> set B. fst kv \<le> fst b))"

lemma is_ins_ctx:
  assumes "is_ins kv X X'" "\<forall>a \<in> set A. fst a \<le> fst kv" "\<forall>b \<in> set B. fst kv \<le> fst b"
  shows "is_ins kv (A @ X @ B) (A @ X' @ B)"
proof -
  from assms(1) obtain A1 B1 where
    h: "X = A1 @ B1" "X' = A1 @ kv # B1"
      "\<forall>a \<in> set A1. fst a \<le> fst kv" "\<forall>b \<in> set B1. fst kv \<le> fst b"
    unfolding is_ins_def by blast
  show ?thesis
    unfolding is_ins_def
    by (rule exI[of _ "A @ A1"], rule exI[of _ "B1 @ B"]) (use h assms(2,3) in auto)
qed

lemma is_ins_mset: "is_ins kv xs ys \<Longrightarrow> mset ys = add_mset kv (mset xs)"
  by (auto simp: is_ins_def)

lemma is_ins_sorted:
  "is_ins kv xs ys \<Longrightarrow> sorted (map fst xs) \<Longrightarrow> sorted (map fst ys)"
  by (auto simp: is_ins_def sorted_append)

lemma wf_not_Nil: "wfnode d h r n \<Longrightarrow> \<exists>ks vs cs lf. n = Node ks vs cs lf"
  by (cases n) simp_all

text \<open>The two halves that \<open>splitChild\<close> makes of a full child.\<close>
definition left_half :: "int \<Rightarrow> BTreeNode \<Rightarrow> BTreeNode" where
  "left_half d f = Node (take (nat (d - 1)) (keys f)) (take (nat (d - 1)) (vals f))
                     (if leaf f then children f else take (nat d) (children f)) (leaf f)"

definition right_half :: "int \<Rightarrow> BTreeNode \<Rightarrow> BTreeNode" where
  "right_half d f = Node (drop (nat d) (keys f)) (drop (nat d) (vals f))
                     (if leaf f then [] else drop (nat d) (children f)) (leaf f)"

lemma pos_int_Suc: "1 \<le> d \<Longrightarrow> \<exists>t. d = int (Suc t)"
  by (rule exI[of _ "nat (d - 1)"]) simp

lemma wf_halves:
  assumes "wfnode d h False (Node fks fvs fcs flf)" "int (length fks) = 2 * d - 1" "1 \<le> d"
  shows "wfnode d h False (left_half d (Node fks fvs fcs flf))"
    and "wfnode d h False (right_half d (Node fks fvs fcs flf))"
proof -
  obtain t where t: "d = int (Suc t)"
    using assms(3) pos_int_Suc by blast
  have n: "length fks = Suc (t + t)" "nat (d - 1) = t" "nat d = Suc t"
    using assms(2) t by simp_all
  have a: "d - 1 \<le> int t" "int t \<le> 2 * d - 1"
    using t by simp_all
  show "wfnode d h False (left_half d (Node fks fvs fcs flf))"
    using assms(1) n a by (cases h) (auto simp: left_half_def min_def dest: in_set_takeD)
  show "wfnode d h False (right_half d (Node fks fvs fcs flf))"
    using assms(1) n a by (cases h) (auto simp: right_half_def dest: in_set_dropD)
qed

lemma zip_take_nth_drop:
  assumes "m < length xs" "length ys = length xs"
  shows "zip xs ys = zip (take m xs) (take m ys) @ (xs ! m, ys ! m) # zip (drop (Suc m) xs) (drop (Suc m) ys)"
proof -
  have "zip xs ys = take m (zip xs ys) @ zip xs ys ! m # drop (Suc m) (zip xs ys)"
    using assms by (intro id_take_nth_drop) simp
  then show ?thesis using assms by (simp add: take_zip drop_zip)
qed

lemma entries_halves:
  assumes "wfnode d h r (Node fks fvs fcs flf)" "int (length fks) = 2 * d - 1" "1 \<le> d"
  shows "entries (Node fks fvs fcs flf)
       = entries (left_half d (Node fks fvs fcs flf))
         @ (fks ! nat (d - 1), fvs ! nat (d - 1))
         # entries (right_half d (Node fks fvs fcs flf))"
proof -
  let ?m = "nat (d - 1)"
  have n: "length fks = nat d + nat d - 1" "Suc ?m = nat d" "?m < length fks" "0 < nat d"
    using assms(2,3) by linarith+
  have lv: "length fvs = length fks" using assms(1) by (cases h) simp_all
  have z: "zip fks fvs = zip (take ?m fks) (take ?m fvs) @ (fks ! ?m, fvs ! ?m)
            # zip (drop (nat d) fks) (drop (nat d) fvs)"
    using zip_take_nth_drop[OF n(3) lv] n(2) by simp
  show ?thesis
  proof (cases flf)
    case True
    then show ?thesis using z by (simp add: left_half_def right_half_def)
  next
    case False
    with assms(1) have lc: "length fcs = Suc (length fks)" by (cases h) simp_all
    have "interleave (map entries (take (nat d) fcs) @ map entries (drop (nat d) fcs))
            (zip (take ?m fks) (take ?m fvs) @ (fks ! ?m, fvs ! ?m)
              # zip (drop (nat d) fks) (drop (nat d) fvs))
        = interleave (map entries (take (nat d) fcs)) (zip (take ?m fks) (take ?m fvs))
          @ (fks ! ?m, fvs ! ?m)
          # interleave (map entries (drop (nat d) fcs)) (zip (drop (nat d) fks) (drop (nat d) fvs))"
      using n lv lc by (intro inter_append) (simp add: min_def)
    moreover have "map entries fcs = map entries (take (nat d) fcs) @ map entries (drop (nat d) fcs)"
      by (simp flip: map_append)
    ultimately show ?thesis
      using False z by (simp add: left_half_def right_half_def)
  qed
qed

lemma insertNonFull_leaf:
  assumes "length vs = length ks"
  shows "insertNonFull d (Node ks vs cs True) key value
       = Some (Node (take (ipos ks key) ks @ key # drop (ipos ks key) ks)
                    (take (ipos ks key) vs @ value # drop (ipos ks key) vs) cs True)"
proof -
  from insertNonFull_shift_eq[OF assms, of 0 "[]" "''''" "[]" key key "value"]
  obtain ks1 vs1 where
    s: "insertNonFull_shift (ks @ [0]) (vs @ ['''']) key (int (length ks) - 1)
          = Some (ks1, vs1, int (ipos ks key) - 1)"
    and k: "ks1[ipos ks key := key] = take (ipos ks key) ks @ key # drop (ipos ks key) ks"
    and v: "vs1[ipos ks key := value] = take (ipos ks key) vs @ value # drop (ipos ks key) vs"
    by auto
  have "length ks1 = Suc (length ks)" "length vs1 = Suc (length ks)"
    using arg_cong[OF k, of length] arg_cong[OF v, of length] assms ipos_le[of ks key] by simp_all
  then show ?thesis
    using s k v ipos_le[of ks key] by (simp add: insertNonFull.simps assign_def)
qed

lemma ipos_take:
  assumes "sorted ks"
  shows "\<forall>x \<in> set (take (ipos ks key) ks). x \<le> key"
proof
  fix x assume "x \<in> set (take (ipos ks key) ks)"
  then obtain j where j: "j < ipos ks key" "x = ks ! j"
    using ipos_le[of ks key] by (auto simp: in_set_conv_nth)
  then have "ks ! j \<le> ks ! (ipos ks key - 1)"
    using assms ipos_le[of ks key] by (intro sorted_nth_mono) auto
  also have "\<dots> \<le> key" using j by (intro ipos_le_key) simp
  finally show "x \<le> key" using j by simp
qed

lemma leaf_is_ins:
  assumes "length vs = length ks" "sorted ks"
  shows "is_ins (key, value) (zip ks vs)
           (zip (take (ipos ks key) ks @ key # drop (ipos ks key) ks)
                (take (ipos ks key) vs @ value # drop (ipos ks key) vs))"
  unfolding is_ins_def
proof (intro exI conjI)
  let ?p = "ipos ks key"
  show "zip ks vs = take ?p (zip ks vs) @ drop ?p (zip ks vs)" by simp
  show "zip (take ?p ks @ key # drop ?p ks) (take ?p vs @ value # drop ?p vs)
      = take ?p (zip ks vs) @ (key, value) # drop ?p (zip ks vs)"
    using assms(1) by (simp add: take_zip drop_zip)
  show "\<forall>a \<in> set (take ?p (zip ks vs)). fst a \<le> fst (key, value)"
    using ipos_take[OF assms(2), of key] by (auto simp: take_zip dest: set_zip_leftD)
  show "\<forall>b \<in> set (drop ?p (zip ks vs)). fst (key, value) \<le> fst b"
    using ipos_drop[of ks key] by (force simp: drop_zip dest: set_zip_leftD)
qed

section \<open>One step of the descent\<close>

lemma descend_not_full:
  assumes "length cs = Suc (length ks)" "cs ! ipos ks key = Node fks fvs fcs flf"
    "int (length fks) \<noteq> 2 * d - 1"
  shows "insertNonFull_descend d (Node ks vs cs lf) key
       = Some (Node ks vs cs lf, int (ipos ks key))"
  using assms insertNonFull_scan_eq[of ks "[]" key] ipos_le[of ks key]
  by (simp add: insertNonFull_descend.simps index_def)

lemma descend_full:
  assumes "length cs = Suc (length ks)" "length vs = length ks"
    "cs ! ipos ks key = Node fks fvs fcs flf"
    "int (length fks) = 2 * d - 1" "1 \<le> d" "length fvs = length fks"
    "\<not> flf \<Longrightarrow> length fcs = Suc (length fks)"
  shows "insertNonFull_descend d (Node ks vs cs lf) key
       = Some (Node (take (ipos ks key) ks @ fks ! nat (d - 1) # drop (ipos ks key) ks)
                    (take (ipos ks key) vs @ fvs ! nat (d - 1) # drop (ipos ks key) vs)
                    (take (ipos ks key) cs
                       @ left_half d (Node fks fvs fcs flf)
                       # right_half d (Node fks fvs fcs flf)
                       # drop (Suc (ipos ks key)) cs) lf,
               if key > fks ! nat (d - 1) then int (ipos ks key) + 1 else int (ipos ks key))"
proof -
  let ?p = "ipos ks key"
  have p: "?p < length cs" using assms(1) ipos_le[of ks key] by simp
  have "d \<le> int (length fks)" "d \<le> int (length fvs)" "\<not> flf \<Longrightarrow> d \<le> int (length fcs)"
    using assms(4-7) by simp_all
  from splitChild_eq[OF p assms(2,1,3,5) this, of lf]
  have s: "splitChild d (Node ks vs cs lf) (int ?p)
      = Some (Node (take ?p ks @ fks ! nat (d - 1) # drop ?p ks)
                   (take ?p vs @ fvs ! nat (d - 1) # drop ?p vs)
                   (take ?p cs @ left_half d (Node fks fvs fcs flf)
                      # right_half d (Node fks fvs fcs flf) # drop (Suc ?p) cs) lf)"
    by (simp add: left_half_def right_half_def)
  have k: "(take ?p ks @ fks ! nat (d - 1) # drop ?p ks) ! ?p = fks ! nat (d - 1)"
    using ipos_le[of ks key] by (simp add: nth_append)
  show ?thesis
    using assms(1,3,4) insertNonFull_scan_eq[of ks "[]" key] ipos_le[of ks key] s k
    by (simp add: insertNonFull_descend.simps index_def)
qed

text \<open>The part of a node's in-order walk that comes before child \<open>p\<close>, and the part that
  comes after it.\<close>
definition walk_before :: "nat \<Rightarrow> BTreeNode \<Rightarrow> (int \<times> string) list" where
  "walk_before p n = walk_pre (take p (map entries (children n))) (take p (zip (keys n) (vals n)))"

definition walk_after :: "nat \<Rightarrow> BTreeNode \<Rightarrow> (int \<times> string) list" where
  "walk_after p n = walk_rest (drop p (zip (keys n) (vals n))) (drop (Suc p) (map entries (children n)))"

lemma entries_around:
  assumes "length cs = Suc (length ks)" "length vs = length ks" "p \<le> length ks"
  shows "entries (Node ks vs cs False)
       = walk_before p (Node ks vs cs False) @ entries (cs ! p) @ walk_after p (Node ks vs cs False)"
proof -
  have p: "p < length cs" using assms by simp
  have "interleave (take p (map entries cs) @ entries (cs ! p) # drop (Suc p) (map entries cs))
          (take p (zip ks vs) @ drop p (zip ks vs))
      = walk_pre (take p (map entries cs)) (take p (zip ks vs)) @ entries (cs ! p)
        @ walk_rest (drop p (zip ks vs)) (drop (Suc p) (map entries cs))"
    using assms p by (intro inter_one) simp
  moreover have "take p (map entries cs) @ entries (cs ! p) # drop (Suc p) (map entries cs)
      = map entries cs"
    using id_take_nth_drop[of p "map entries cs"] p by simp
  ultimately show ?thesis by (simp add: walk_before_def walk_after_def)
qed

lemma entries_update:
  assumes "length cs = Suc (length ks)" "length vs = length ks" "p \<le> length ks"
  shows "entries (Node ks vs (cs[p := c]) False)
       = walk_before p (Node ks vs cs False) @ entries c @ walk_after p (Node ks vs cs False)"
proof -
  have p: "p < length cs" using assms by simp
  have "walk_before p (Node ks vs (cs[p := c]) False) = walk_before p (Node ks vs cs False)"
    "walk_after p (Node ks vs (cs[p := c]) False) = walk_after p (Node ks vs cs False)"
    by (simp_all add: walk_before_def walk_after_def map_update)
  then show ?thesis
    using entries_around[of "cs[p := c]" ks vs p] assms p by simp
qed

lemma entries_after_split:
  assumes "length cs = Suc (length ks)" "length vs = length ks" "p \<le> length ks"
  shows "entries (Node (take p ks @ mk # drop p ks) (take p vs @ mv # drop p vs)
                       (take p cs @ l # r # drop (Suc p) cs) False)
       = walk_before p (Node ks vs cs False) @ entries l @ (mk, mv) # entries r
         @ walk_after p (Node ks vs cs False)"
proof -
  have p: "p < length cs" using assms by simp
  have "interleave (take p (map entries cs) @ entries l # entries r # drop (Suc p) (map entries cs))
          (take p (zip ks vs) @ (mk, mv) # drop p (zip ks vs))
      = walk_pre (take p (map entries cs)) (take p (zip ks vs)) @ entries l @ (mk, mv) # entries r
        @ walk_rest (drop p (zip ks vs)) (drop (Suc p) (map entries cs))"
    using assms p by (intro inter_two) simp
  moreover have "zip (take p ks @ mk # drop p ks) (take p vs @ mv # drop p vs)
      = take p (zip ks vs) @ (mk, mv) # drop p (zip ks vs)"
    using assms by (simp add: take_zip drop_zip)
  ultimately show ?thesis
    by (simp add: walk_before_def walk_after_def take_map drop_map)
qed

lemma sorted_le_last: "sorted (xs @ [x]) \<Longrightarrow> \<forall>a \<in> set (xs @ [x]). a \<le> (x::int)"
  by (auto simp: sorted_append)

lemma before_bound:
  assumes "length cs = Suc (length ks)" "length vs = length ks"
    "sorted (map fst (walk_before (ipos ks key) (Node ks vs cs False)))"
  shows "\<forall>a \<in> set (walk_before (ipos ks key) (Node ks vs cs False)). fst a \<le> key"
proof (cases "ipos ks key = 0")
  case True
  then show ?thesis by (simp add: walk_before_def)
next
  case False
  let ?p = "ipos ks key"
  have p: "?p \<le> length ks" by (rule ipos_le)
  have ne: "take ?p (zip ks vs) \<noteq> []" using False p assms(2) by (cases ks; cases vs) auto
  have "last (take ?p (zip ks vs)) = zip ks vs ! (?p - 1)"
    using False p assms(2) ne by (simp add: last_conv_nth)
  then have l: "fst (last (take ?p (zip ks vs))) = ks ! (?p - 1)"
    using False p assms(2) by simp
  from pre_last[of "take ?p (map entries cs)" "take ?p (zip ks vs)"] ne
  obtain A where A: "walk_before ?p (Node ks vs cs False) = A @ [last (take ?p (zip ks vs))]"
    using p assms(1,2) by (auto simp: walk_before_def)
  have "\<forall>a \<in> set (map fst A @ [ks ! (?p - 1)]). a \<le> ks ! (?p - 1)"
    using assms(3) unfolding A by (intro sorted_le_last) (simp add: l)
  moreover have "ks ! (?p - 1) \<le> key" using False by (intro ipos_le_key) simp
  ultimately show ?thesis unfolding A using l by auto
qed

lemma after_bound:
  assumes "length cs = Suc (length ks)" "length vs = length ks"
    "sorted (map fst (walk_after (ipos ks key) (Node ks vs cs False)))"
  shows "\<forall>b \<in> set (walk_after (ipos ks key) (Node ks vs cs False)). key < fst b"
proof (cases "ipos ks key = length ks")
  case True
  then show ?thesis using assms(1,2) by (simp add: walk_after_def)
next
  case False
  let ?p = "ipos ks key"
  have p: "?p < length ks" using False ipos_le[of ks key] by simp
  then have "drop ?p (zip ks vs) = (ks ! ?p, vs ! ?p) # drop (Suc ?p) (zip ks vs)"
    using assms(2) by (simp flip: Cons_nth_drop_Suc)
  then obtain B where B: "walk_after ?p (Node ks vs cs False) = (ks ! ?p, vs ! ?p) # B"
    by (simp add: walk_after_def)
  have "key < ks ! ?p" using p by (rule ipos_gt)
  then show ?thesis using assms(3) unfolding B by auto
qed

lemma wf_Suc_D:
  assumes "wfnode d (Suc h) r (Node ks vs cs lf)"
  shows "\<not> lf" "length cs = Suc (length ks)" "length vs = length ks"
    "r \<or> d - 1 \<le> int (length ks)" "int (length ks) \<le> 2 * d - 1" "\<forall>c \<in> set cs. wfnode d h False c"
  using assms by simp_all

lemma wf_lengths:
  assumes "wfnode d h r (Node ks vs cs lf)"
  shows "length vs = length ks" "int (length ks) \<le> 2 * d - 1" "\<not> lf \<Longrightarrow> length cs = Suc (length ks)"
  using assms by (cases h; simp)+

lemma descend_step:
  assumes d: "1 \<le> d" and wfnode: "wfnode d (Suc h) r (Node ks vs cs False)"
    and nf: "int (length ks) < 2 * d - 1"
    and srt: "sorted (map fst (entries (Node ks vs cs False)))"
  shows "\<exists>ks' vs' cs' i A B.
      insertNonFull_descend d (Node ks vs cs False) key = Some (Node ks' vs' cs' False, int i)
    \<and> i < length cs'
    \<and> wfnode d (Suc h) r (Node ks' vs' cs' False)
    \<and> (\<exists>fks fvs fcs flf. cs' ! i = Node fks fvs fcs flf \<and> int (length fks) < 2 * d - 1)
    \<and> entries (Node ks vs cs False) = A @ entries (cs' ! i) @ B
    \<and> (\<forall>c. entries (Node ks' vs' (cs'[i := c]) False) = A @ entries c @ B)
    \<and> (\<forall>a \<in> set A. fst a \<le> key) \<and> (\<forall>b \<in> set B. key \<le> fst b)"
proof -
  let ?n = "Node ks vs cs False" and ?p = "ipos ks key"
  note l = wf_Suc_D[OF wfnode]
  have p: "?p \<le> length ks" "?p < length cs" using ipos_le[of ks key] l(2) by simp_all
  have wc: "wfnode d h False (cs ! ?p)" using l(6) p(2) by simp
  then obtain fks fvs fcs flf where f: "cs ! ?p = Node fks fvs fcs flf"
    using wf_not_Nil by blast
  note fl = wf_lengths[OF wc[unfolded f]]
  have ar: "entries ?n = walk_before ?p ?n @ entries (cs ! ?p) @ walk_after ?p ?n"
    using l(2,3) p(1) by (rule entries_around)
  have s3: "sorted (map fst (walk_before ?p ?n))" "sorted (map fst (entries (cs ! ?p)))"
    "sorted (map fst (walk_after ?p ?n))"
    using srt unfolding ar by (simp_all add: sorted_append)
  have bA: "\<forall>a \<in> set (walk_before ?p ?n). fst a \<le> key"
    using l(2,3) s3(1) by (rule before_bound)
  have bB: "\<forall>b \<in> set (walk_after ?p ?n). key < fst b"
    using l(2,3) s3(3) by (rule after_bound)
  show ?thesis
  proof (cases "int (length fks) = 2 * d - 1")
    case False
    have 1: "insertNonFull_descend d ?n key = Some (?n, int ?p)"
      using l(2) f False by (rule descend_not_full)
    have 2: "int (length fks) < 2 * d - 1" using False fl(2) by simp
    have 3: "\<forall>c. entries (Node ks vs (cs[?p := c]) False)
               = walk_before ?p ?n @ entries c @ walk_after ?p ?n"
      using entries_update[OF l(2,3) p(1)] by simp
    show ?thesis
      apply (rule exI[of _ ks], rule exI[of _ vs], rule exI[of _ cs], rule exI[of _ ?p])
      apply (rule exI[of _ "walk_before ?p ?n"], rule exI[of _ "walk_after ?p ?n"])
      using 1 2 3 p(2) wfnode f ar bA bB by (auto simp: less_imp_le)
  next
    case True
    let ?f = "Node fks fvs fcs flf"
    let ?L = "left_half d ?f" and ?R = "right_half d ?f"
    let ?mk = "fks ! nat (d - 1)" and ?mv = "fvs ! nat (d - 1)"
    let ?ks' = "take ?p ks @ ?mk # drop ?p ks"
    let ?vs' = "take ?p vs @ ?mv # drop ?p vs"
    let ?cs' = "take ?p cs @ ?L # ?R # drop (Suc ?p) cs"
    have 1: "insertNonFull_descend d ?n key
         = Some (Node ?ks' ?vs' ?cs' False, if key > ?mk then int ?p + 1 else int ?p)"
      using l(2,3) f True d fl(1) fl(3) by (rule descend_full)
    have wL: "wfnode d h False ?L" and wR: "wfnode d h False ?R"
      using wf_halves[OF wc[unfolded f] True d] by simp_all
    have eh: "entries (cs ! ?p) = entries ?L @ (?mk, ?mv) # entries ?R"
      unfolding f using wc[unfolded f] True d by (rule entries_halves)
    have wf': "wfnode d (Suc h) r (Node ?ks' ?vs' ?cs' False)"
      using l nf p wL wR by (auto dest: in_set_takeD in_set_dropD)
    have es: "entries (Node ?ks' ?vs' (take ?p cs @ x # y # drop (Suc ?p) cs) False)
         = walk_before ?p ?n @ entries x @ (?mk, ?mv) # entries y @ walk_after ?p ?n" for x y
      using l(2,3) p(1) by (rule entries_after_split)
    have lt: "length (take ?p cs) = ?p" using p(2) by simp
    have nfL: "\<exists>ks vs cs lf. ?L = Node ks vs cs lf \<and> int (length ks) < 2 * d - 1"
      and nfR: "\<exists>ks vs cs lf. ?R = Node ks vs cs lf \<and> int (length ks) < 2 * d - 1"
      using True d by (auto simp: left_half_def right_half_def)
    have sh: "sorted (map fst (entries ?L @ (?mk, ?mv) # entries ?R))"
      using s3(2) eh by simp
    show ?thesis
    proof (cases "key > ?mk")
      case True
      have i: "?cs' ! Suc ?p = ?R" "Suc ?p < length ?cs'"
        "\<And>c. ?cs'[Suc ?p := c] = take ?p cs @ ?L # c # drop (Suc ?p) cs"
        using lt by (simp_all add: nth_append list_update_append)
      have A: "\<forall>a \<in> set (walk_before ?p ?n @ entries ?L @ [(?mk, ?mv)]). fst a \<le> key"
        using bA sh True by (auto simp: sorted_append)
      have B: "\<forall>b \<in> set (walk_after ?p ?n). key \<le> fst b"
        using bB by auto
      show ?thesis
        apply (rule exI[of _ ?ks'], rule exI[of _ ?vs'], rule exI[of _ ?cs'], rule exI[of _ "Suc ?p"])
        apply (rule exI[of _ "walk_before ?p ?n @ entries ?L @ [(?mk, ?mv)]"], rule exI[of _ "walk_after ?p ?n"])
        apply (intro conjI)
        subgoal using 1 True by simp
        subgoal using i(2) .
        subgoal using wf' .
        subgoal using nfR i(1) by simp
        subgoal using ar eh i(1) by simp
        subgoal using es i(3) by simp
        subgoal using A .
        subgoal using B .
        done
    next
      case False
      have i: "?cs' ! ?p = ?L" "?p < length ?cs'"
        "\<And>c. ?cs'[?p := c] = take ?p cs @ c # ?R # drop (Suc ?p) cs"
        using lt by (simp_all add: nth_append list_update_append)
      have A: "\<forall>b \<in> set ((?mk, ?mv) # entries ?R @ walk_after ?p ?n). key \<le> fst b"
        using bB sh False by (auto simp: sorted_append)
      show ?thesis
        apply (rule exI[of _ ?ks'], rule exI[of _ ?vs'], rule exI[of _ ?cs'], rule exI[of _ ?p])
        apply (rule exI[of _ "walk_before ?p ?n"], rule exI[of _ "(?mk, ?mv) # entries ?R @ walk_after ?p ?n"])
        apply (intro conjI)
        subgoal using 1 False by simp
        subgoal using i(2) .
        subgoal using wf' .
        subgoal using nfL i(1) by simp
        subgoal using ar eh i(1) by simp
        subgoal using es i(3) by simp
        subgoal using bA .
        subgoal using A .
        done
    qed
  qed
qed

section \<open>Insertion keeps the shape and the order\<close>

lemma insertNonFull_correct:
  assumes "1 \<le> d" "wfnode d h r n" "int (length (keys n)) < 2 * d - 1" "sorted (map fst (entries n))"
  shows "\<exists>n'. insertNonFull d n key value = Some n' \<and> wfnode d h r n'
            \<and> is_ins (key, value) (entries n) (entries n')"
  using assms(2-)
proof (induction h arbitrary: n r)
  case 0
  then obtain ks vs where n: "n = Node ks vs [] True"
    by (cases n) auto
  from 0 n have l: "length vs = length ks" by simp
  with 0 n have s: "sorted ks" by simp
  show ?case
    unfolding n using 0(1,2) n leaf_is_ins[OF l s, of key "value"]
    by (auto simp: insertNonFull_leaf[OF l] ipos_le)
next
  case (Suc h)
  then obtain ks vs cs where n: "n = Node ks vs cs False"
    by (cases n) auto
  from descend_step[OF assms(1) Suc.prems(1)[unfolded n], of key] Suc.prems(2,3) n
  obtain ks' vs' cs' i A B where
    ds: "insertNonFull_descend d (Node ks vs cs False) key = Some (Node ks' vs' cs' False, int i)"
    and i: "i < length cs'"
    and wf': "wfnode d (Suc h) r (Node ks' vs' cs' False)"
    and nfc: "\<exists>fks fvs fcs flf. cs' ! i = Node fks fvs fcs flf \<and> int (length fks) < 2 * d - 1"
    and e: "entries (Node ks vs cs False) = A @ entries (cs' ! i) @ B"
    and e': "\<And>c. entries (Node ks' vs' (cs'[i := c]) False) = A @ entries c @ B"
    and bA: "\<forall>a \<in> set A. fst a \<le> key" and bB: "\<forall>b \<in> set B. key \<le> fst b"
    by auto
  have wc: "wfnode d h False (cs' ! i)" using wf' i by simp
  have nf: "int (length (keys (cs' ! i))) < 2 * d - 1" using nfc by auto
  have sc: "sorted (map fst (entries (cs' ! i)))"
    using Suc.prems(3) unfolding n e by (simp add: sorted_append)
  from Suc.IH[OF wc nf sc] obtain c' where
    c': "insertNonFull d (cs' ! i) key value = Some c'" "wfnode d h False c'"
      "is_ins (key, value) (entries (cs' ! i)) (entries c')"
    by blast
  have r: "insertNonFull d n key value = Some (Node ks' vs' (cs'[i := c']) False)"
    unfolding n using ds i c'(1) by (simp add: insertNonFull.simps index_def assign_def)
  have w: "wfnode d (Suc h) r (Node ks' vs' (cs'[i := c']) False)"
    using wf' c'(2) by (auto dest: set_update_subset_insert[THEN subsetD])
  have "is_ins (key, value) (A @ entries (cs' ! i) @ B) (A @ entries c' @ B)"
    using c'(3) bA bB by (intro is_ins_ctx) simp_all
  then have "is_ins (key, value) (entries n) (entries (Node ks' vs' (cs'[i := c']) False))"
    by (simp only: n e e')
  with r w show ?case by blast
qed

lemma wf_root_weaken: "wfnode d h True n \<Longrightarrow> d - 1 \<le> int (length (keys n)) \<Longrightarrow> wfnode d h False n"
  by (cases n; cases h) simp_all

lemma Insert_root_step:
  assumes d: "2 \<le> d" and dg: "degree bt = d" and wfnode: "wfnode d h True (root bt)"
  shows "\<exists>bt1. Insert_root bt = Some bt1 \<and> degree bt1 = d
      \<and> wfnode d (if isFull d (root bt) = Some True then Suc h else h) True (root bt1)
      \<and> int (length (keys (root bt1))) < 2 * d - 1
      \<and> entries (root bt1) = entries (root bt)"
proof -
  from wfnode obtain ks vs cs lf where rt: "root bt = Node ks vs cs lf"
    using wf_not_Nil by blast
  note l = wf_lengths[OF wfnode[unfolded rt]]
  have d1: "1 \<le> d" using d by simp
  show ?thesis
  proof (cases "int (length ks) = 2 * d - 1")
    case False
    then have "int (length ks) < 2 * d - 1" using l(2) by simp
    then show ?thesis using False rt dg wfnode by (simp add: Insert_root_def)
  next
    case True
    let ?f = "Node ks vs cs lf"
    let ?L = "left_half d ?f" and ?R = "right_half d ?f"
    let ?nr = "Node [ks ! nat (d - 1)] [vs ! nat (d - 1)] [?L, ?R] False"
    have wff: "wfnode d h False ?f"
      using wfnode rt True d by (intro wf_root_weaken) simp_all
    have "d \<le> int (length ks)" "d \<le> int (length vs)" "\<not> lf \<Longrightarrow> d \<le> int (length cs)"
      using True d l by simp_all
    from splitChild_eq[of 0 "[?f]" "[]" "[]" ks vs cs lf d False, OF _ _ _ _ d1 this]
    have sp: "splitChild d (Node [] [] [?f] False) 0 = Some ?nr"
      by (simp add: left_half_def right_half_def)
    have wn: "wfnode d (Suc h) True ?nr"
      using wf_halves[OF wff True d1] d by simp
    have en: "entries ?nr = entries ?f"
      using entries_halves[OF wff True d1] by simp
    have nf: "int (length (keys ?nr)) < 2 * d - 1" using d by simp
    show ?thesis using True rt dg sp en wn nf by (simp add: Insert_root_def)
  qed
qed

lemma Insert_step:
  assumes d: "2 \<le> d" and dg: "degree bt = d" and wfnode: "wfnode d h True (root bt)"
    and srt: "sorted (map fst (entries (root bt)))"
  shows "\<exists>bt'. Insert bt key value = Some bt' \<and> degree bt' = d
      \<and> wfnode d (if isFull d (root bt) = Some True then Suc h else h) True (root bt')
      \<and> is_ins (key, value) (entries (root bt)) (entries (root bt'))"
proof -
  let ?h = "if isFull d (root bt) = Some True then Suc h else h"
  from Insert_root_step[OF d dg wfnode] obtain bt1 where
    r: "Insert_root bt = Some bt1" "degree bt1 = d" "wfnode d ?h True (root bt1)"
      "int (length (keys (root bt1))) < 2 * d - 1" "entries (root bt1) = entries (root bt)"
    by blast
  have d1: "1 \<le> d" using d by simp
  have "sorted (map fst (entries (root bt1)))" using srt r(5) by simp
  from insertNonFull_correct[OF d1 r(3,4) this, of key "value"]
  show ?thesis using r by (auto simp: Insert_def)
qed

text \<open>What holds of every tree that \<open>Insert\<close> calls build from a well-formed one.\<close>
definition btree_inv :: "int \<Rightarrow> BTree \<Rightarrow> bool" where
  "btree_inv d bt \<longleftrightarrow>
     degree bt = d \<and> (\<exists>h. wfnode d h True (root bt)) \<and> sorted (map fst (entries (root bt)))"

lemma btree_inv_New: "1 \<le> d \<Longrightarrow> btree_inv d (NewBTree d)"
  unfolding btree_inv_def NewBTree_def
  by (auto intro: exI[of _ 0])

lemma btree_inv_Insert:
  assumes "2 \<le> d" "btree_inv d bt"
  shows "\<exists>bt'. Insert bt key value = Some bt' \<and> btree_inv d bt'
           \<and> is_ins (key, value) (entries (root bt)) (entries (root bt'))"
proof -
  from assms(2) obtain h where h: "degree bt = d" "wfnode d h True (root bt)"
    "sorted (map fst (entries (root bt)))"
    unfolding btree_inv_def by blast
  from Insert_step[OF assms(1) h, of key "value"] h(3)
  show ?thesis unfolding btree_inv_def by (blast intro: is_ins_sorted)
qed

lemma btree_inv_Inserts:
  assumes "2 \<le> d" "btree_inv d bt"
  shows "\<exists>bt'. Inserts bt kvs = Some bt' \<and> btree_inv d bt'
           \<and> mset (entries (root bt')) = mset (entries (root bt)) + mset kvs"
  using assms(2)
proof (induction kvs arbitrary: bt)
  case Nil
  then show ?case by simp
next
  case (Cons kv kvs)
  obtain k v where kv: "kv = (k, v)" by (cases kv)
  from btree_inv_Insert[OF assms(1) Cons.prems, of k v] obtain bt1 where
    1: "Insert bt k v = Some bt1" "btree_inv d bt1"
      "is_ins (k, v) (entries (root bt)) (entries (root bt1))"
    by blast
  from Cons.IH[OF 1(2)] obtain bt' where
    2: "Inserts bt1 kvs = Some bt'" "btree_inv d bt'"
      "mset (entries (root bt')) = mset (entries (root bt1)) + mset kvs"
    by blast
  show ?case using 1 2 kv by (simp add: is_ins_mset)
qed

lemma built:
  assumes "2 \<le> d"
  shows "\<exists>bt. Inserts (NewBTree d) kvs = Some bt \<and> btree_inv d bt
           \<and> mset (entries (root bt)) = mset kvs"
proof -
  have "btree_inv d (NewBTree d)" using assms by (intro btree_inv_New) simp
  from btree_inv_Inserts[OF assms this, of kvs]
  show ?thesis by (simp add: NewBTree_def)
qed

section \<open>Nodes, depths and heights\<close>

text \<open>All nodes of a subtree, the subtree's own top node first.\<close>
fun nodes :: "BTreeNode \<Rightarrow> BTreeNode list" where
  "nodes Nil = []"
| "nodes (Node ks vs cs lf) = Node ks vs cs lf # concat (map nodes cs)"

text \<open>
  The depth, below the top node of the subtree, of each of its leaves. A node counts as a leaf
  when its \<open>leaf\<close> flag is set and also when it has no children, and the walk goes on below
  every node that has children, whatever its flag says.
\<close>
fun leaf_depths :: "BTreeNode \<Rightarrow> nat list" where
  "leaf_depths Nil = []"
| "leaf_depths (Node ks vs cs lf) =
     (if lf \<or> cs = [] then [0] else []) @ map Suc (concat (map leaf_depths cs))"

text \<open>The height of a subtree: the number of nodes on its longest path down.\<close>
fun height :: "BTreeNode \<Rightarrow> nat" where
  "height Nil = 0"
| "height (Node ks vs cs lf) = Suc (fold max (map height cs) 0)"

lemma wf_key_counts:
  "wfnode d h False n \<Longrightarrow>
   \<forall>m \<in> set (nodes n). d - 1 \<le> int (length (keys m)) \<and> int (length (keys m)) \<le> 2 * d - 1"
proof (induction h arbitrary: n)
  case 0
  then show ?case by (cases n) auto
next
  case (Suc h)
  then show ?case by (cases n) auto
qed

lemma wf_key_max:
  "wfnode d h r n \<Longrightarrow> \<forall>m \<in> set (nodes n). int (length (keys m)) \<le> 2 * d - 1"
proof (induction h arbitrary: n r)
  case 0
  then show ?case by (cases n) auto
next
  case (Suc h)
  then show ?case by (cases n) fastforce+
qed

lemma wf_leaf_depths: "wfnode d h r n \<Longrightarrow> \<forall>x \<in> set (leaf_depths n). x = h"
proof (induction h arbitrary: n r)
  case 0
  then show ?case by (cases n) auto
next
  case (Suc h)
  then show ?case by (cases n) fastforce+
qed

lemma wf_leaf_depths_ne: "wfnode d h r n \<Longrightarrow> leaf_depths n \<noteq> []"
proof (induction h arbitrary: n r)
  case 0
  then show ?case by (cases n) auto
next
  case (Suc h)
  then obtain ks vs cs lf where n: "n = Node ks vs cs lf" by (cases n) auto
  with Suc.prems obtain c cs' where cs: "cs = c # cs'" "wfnode d h False c"
    by (cases cs) auto
  from Suc.IH[OF cs(2)] show ?case using n cs(1) by simp
qed

lemma wf_nodes_shape:
  "wfnode d h r n \<Longrightarrow>
   \<forall>m \<in> set (nodes n). (leaf m \<longleftrightarrow> children m = []) \<and> Nil \<notin> set (children m)"
proof (induction h arbitrary: n r)
  case 0
  then show ?case by (cases n) auto
next
  case (Suc h)
  then obtain ks vs cs lf where n: "n = Node ks vs cs lf" by (cases n) auto
  have "Nil \<notin> set cs" using Suc.prems n by auto
  moreover have "\<forall>c \<in> set cs. \<forall>m \<in> set (nodes c).
      (leaf m \<longleftrightarrow> children m = []) \<and> Nil \<notin> set (children m)"
    using Suc.IH Suc.prems n by auto
  ultimately show ?case using Suc.prems n by auto
qed

lemma fold_max_const:
  "xs \<noteq> [] \<Longrightarrow> \<forall>x \<in> set xs. x = (h::nat) \<Longrightarrow> fold max xs a = max h a"
proof (induction xs arbitrary: a)
  case (Cons x xs)
  then show ?case by (cases xs) (auto simp: max.assoc max.commute)
qed simp

lemma wf_height: "wfnode d h r n \<Longrightarrow> height n = Suc h"
proof (induction h arbitrary: n r)
  case 0
  then show ?case by (cases n) auto
next
  case (Suc h)
  then obtain ks vs cs lf where n: "n = Node ks vs cs lf" by (cases n) auto
  with Suc have "map height cs \<noteq> []" "\<forall>x \<in> set (map height cs). x = Suc h"
    by auto
  from fold_max_const[OF this, of 0] show ?case using n by simp
qed

lemma sorted_wrt_concatD: "sorted_wrt P (concat cs) \<Longrightarrow> \<forall>c \<in> set cs. sorted_wrt P c"
  by (induction cs) (auto simp: sorted_wrt_append)

lemma set_interleave: "set (interleave css kvs) = set kvs \<union> \<Union> (set ` set css)"
  by (induction css kvs rule: interleave.induct) auto

lemma interleave_sorted_wrt:
  "sorted_wrt P (interleave css kvs) \<Longrightarrow> sorted_wrt P kvs \<and> (\<forall>c \<in> set css. sorted_wrt P c)"
proof (induction css kvs rule: interleave.induct)
  case (2 c cs)
  then show ?case by (auto simp: sorted_wrt_append dest: sorted_wrt_concatD)
qed (auto simp: sorted_wrt_append set_interleave)

lemma wf_keys_sorted:
  "wfnode d h r n \<Longrightarrow> sorted_wrt (<) (map fst (entries n)) \<Longrightarrow>
   \<forall>m \<in> set (nodes n). sorted_wrt (<) (keys m)"
proof (induction h arbitrary: n r)
  case 0
  then show ?case by (cases n) auto
next
  case (Suc h)
  then obtain ks vs cs where n: "n = Node ks vs cs False" by (cases n) auto
  from Suc.prems(2) have "sorted_wrt (\<lambda>a b. fst a < fst b) (interleave (map entries cs) (zip ks vs))"
    unfolding n by (simp add: sorted_wrt_map)
  from interleave_sorted_wrt[OF this]
  have 1: "sorted_wrt (<) (map fst (zip ks vs))"
    and 2: "\<forall>c \<in> set cs. sorted_wrt (<) (map fst (entries c))"
    by (simp_all add: sorted_wrt_map)
  have "sorted_wrt (<) ks" using 1 Suc.prems(1) n by simp
  moreover have "\<forall>c \<in> set cs. \<forall>m \<in> set (nodes c). sorted_wrt (<) (keys m)"
    using Suc.IH Suc.prems(1) 2 n by auto
  ultimately show ?case using n by auto
qed

lemma built_distinct:
  assumes "2 \<le> d" "distinct (map fst kvs)"
  shows "\<exists>bt h. Inserts (NewBTree d) kvs = Some bt \<and> degree bt = d \<and> wfnode d h True (root bt)
           \<and> sorted_wrt (<) (map fst (entries (root bt)))
           \<and> mset (entries (root bt)) = mset kvs"
proof -
  from built[OF assms(1), of kvs] obtain bt h where
    b: "Inserts (NewBTree d) kvs = Some bt" "degree bt = d" "wfnode d h True (root bt)"
      "sorted (map fst (entries (root bt)))" "mset (entries (root bt)) = mset kvs"
    unfolding btree_inv_def by blast
  have "mset (map fst (entries (root bt))) = mset (map fst kvs)"
    using b(5) by (metis mset_map)
  then have "distinct (map fst (entries (root bt)))"
    using assms(2) by (metis mset_eq_imp_distinct_iff)
  with b show ?thesis by (auto simp: strict_sorted_iff)
qed

lemma built_unique:
  assumes "2 \<le> d" "Inserts (NewBTree d) kvs = Some bt"
  shows "btree_inv d bt" "mset (entries (root bt)) = mset kvs"
  using built[OF assms(1), of kvs] assms(2) by auto

section \<open>The scenario of main\<close>

text \<open>
  C8. With degree 3, after the inserts of \<open>main\<close> (keys 1, 3, 7, 10, 11, 13, 14, 15, 18, 16,
  19, 24 in that order), \<open>Search(10)\<close> and \<open>Search(15)\<close> report found (with the records
  inserted under these keys) and \<open>Search(99)\<close> reports not-found; no call panics.
\<close>
theorem main_scenario:
  "Inserts (NewBTree 3) main_records \<bind> (\<lambda>bt. Search bt 10) = Some (''Record 10'', True)
   \<and> Inserts (NewBTree 3) main_records \<bind> (\<lambda>bt. Search bt 15) = Some (''Record 15'', True)
   \<and> Inserts (NewBTree 3) main_records \<bind> (\<lambda>bt. Search bt 99) = Some ('''', False)"
  by code_simp

section \<open>Search on a fresh tree\<close>

lemma searchNode_loop_empty: "searchNode_loop [] key 0 = Some 0"
  by (simp add: searchNode_loop.simps)

text \<open>
  C10. On a freshly constructed tree (no \<open>Insert\<close>), \<open>Search(key)\<close> returns the empty value
  with found = false, and does not panic, for every key and every degree.
\<close>
theorem Search_fresh: "Search (NewBTree d) key = Some ('''', False)"
  by (simp add: Search_def NewBTree_def searchNode_loop_empty)

section \<open>Invariant preservation\<close>

text \<open>
  C1. For every degree \<open>d \<ge> 2\<close> and every sequence of \<open>Insert\<close> calls with pairwise
  distinct keys on \<open>NewBTree(d)\<close>, after each of the calls (that is, for every prefix of the
  sequence) the call has returned, every node other than the root holds between \<open>d - 1\<close> and
  \<open>2 * d - 1\<close> keys, the keys of every node are strictly ascending, and all leaves are at
  the same depth below the root. The leaves are the nodes without children, and they are the
  nodes whose \<open>leaf\<close> flag is set: in every node the flag is set exactly when there are no
  children, and no child is nil.
\<close>
theorem insert_preserves_invariants:
  assumes "2 \<le> d" "distinct (map fst kvs)"
  shows "\<forall>m \<le> length kvs. \<exists>bt. Inserts (NewBTree d) (take m kvs) = Some bt
      \<and> (\<forall>c \<in> set (children (root bt)). \<forall>n \<in> set (nodes c).
            d - 1 \<le> int (length (keys n)) \<and> int (length (keys n)) \<le> 2 * d - 1)
      \<and> (\<forall>n \<in> set (nodes (root bt)). sorted_wrt (<) (keys n))
      \<and> (\<forall>n \<in> set (nodes (root bt)).
            (leaf n \<longleftrightarrow> children n = []) \<and> Nil \<notin> set (children n))
      \<and> (\<exists>h. leaf_depths (root bt) \<noteq> [] \<and> (\<forall>x \<in> set (leaf_depths (root bt)). x = h))"
proof (intro allI impI)
  fix m assume "m \<le> length kvs"
  have "distinct (map fst (take m kvs))"
    using assms(2) by (simp add: take_map[symmetric] distinct_take del: take_map)
  from built_distinct[OF assms(1) this] obtain bt h where
    b: "Inserts (NewBTree d) (take m kvs) = Some bt" "wfnode d h True (root bt)"
      "sorted_wrt (<) (map fst (entries (root bt)))"
    by blast
  obtain ks vs cs lf where rt: "root bt = Node ks vs cs lf"
    using wf_not_Nil[OF b(2)] by blast
  have "\<forall>c \<in> set cs. \<forall>n \<in> set (nodes c).
            d - 1 \<le> int (length (keys n)) \<and> int (length (keys n)) \<le> 2 * d - 1"
  proof (cases h)
    case 0
    then show ?thesis using b(2) rt by simp
  next
    case (Suc h')
    then have "\<forall>c \<in> set cs. wfnode d h' False c" using b(2) rt by simp
    then show ?thesis using wf_key_counts by blast
  qed
  then have 1: "\<forall>c \<in> set (children (root bt)). \<forall>n \<in> set (nodes c).
            d - 1 \<le> int (length (keys n)) \<and> int (length (keys n)) \<le> 2 * d - 1"
    using rt by simp
  have 2: "\<forall>n \<in> set (nodes (root bt)). sorted_wrt (<) (keys n)"
    using b(2,3) by (rule wf_keys_sorted)
  have 3: "\<forall>n \<in> set (nodes (root bt)).
            (leaf n \<longleftrightarrow> children n = []) \<and> Nil \<notin> set (children n)"
    using b(2) by (rule wf_nodes_shape)
  have 4: "\<exists>h. leaf_depths (root bt) \<noteq> [] \<and> (\<forall>x \<in> set (leaf_depths (root bt)). x = h)"
    using wf_leaf_depths[OF b(2)] wf_leaf_depths_ne[OF b(2)] by blast
  show "\<exists>bt. Inserts (NewBTree d) (take m kvs) = Some bt
      \<and> (\<forall>c \<in> set (children (root bt)). \<forall>n \<in> set (nodes c).
            d - 1 \<le> int (length (keys n)) \<and> int (length (keys n)) \<le> 2 * d - 1)
      \<and> (\<forall>n \<in> set (nodes (root bt)). sorted_wrt (<) (keys n))
      \<and> (\<forall>n \<in> set (nodes (root bt)).
            (leaf n \<longleftrightarrow> children n = []) \<and> Nil \<notin> set (children n))
      \<and> (\<exists>h. leaf_depths (root bt) \<noteq> [] \<and> (\<forall>x \<in> set (leaf_depths (root bt)). x = h))"
    using b(1) 1 2 3 4 by blast
qed

theorem insert_preserves_invariants_witness:
  "(2::int) \<le> 3 \<and> distinct (map fst main_records) \<and> 12 \<le> length main_records
   \<and> Inserts (NewBTree 3) (take 12 main_records)
       = Some \<lparr>root = Node [7, 13, 16] [''Record 7'', ''Record 13'', ''Record 16'']
                  [Node [1, 3] [''Record 1'', ''Record 3''] [] True,
                   Node [10, 11] [''Record 10'', ''Record 11''] [] True,
                   Node [14, 15] [''Record 14'', ''Record 15''] [] True,
                   Node [18, 19, 24] [''Record 18'', ''Record 19'', ''Record 24''] [] True] False,
               degree = 3\<rparr>
   \<and> leaf_depths (Node [7, 13, 16] [''Record 7'', ''Record 13'', ''Record 16'']
                  [Node [1, 3] [''Record 1'', ''Record 3''] [] True,
                   Node [10, 11] [''Record 10'', ''Record 11''] [] True,
                   Node [14, 15] [''Record 14'', ''Record 15''] [] True,
                   Node [18, 19, 24] [''Record 18'', ''Record 19'', ''Record 24''] [] True] False)
       = [1, 1, 1, 1]
   \<and> (\<exists>bt. Inserts (NewBTree 3) (take 12 main_records) = Some bt
      \<and> (\<forall>c \<in> set (children (root bt)). \<forall>n \<in> set (nodes c).
            3 - 1 \<le> int (length (keys n)) \<and> int (length (keys n)) \<le> 2 * 3 - 1)
      \<and> (\<forall>n \<in> set (nodes (root bt)). sorted_wrt (<) (keys n))
      \<and> (\<forall>n \<in> set (nodes (root bt)).
            (leaf n \<longleftrightarrow> children n = []) \<and> Nil \<notin> set (children n))
      \<and> (\<exists>h. leaf_depths (root bt) \<noteq> [] \<and> (\<forall>x \<in> set (leaf_depths (root bt)). x = h)))"
proof -
  have h: "(2::int) \<le> 3" "distinct (map fst main_records)"
    by (simp_all add: main_records_def)
  have m: "12 \<le> length main_records"
    by (simp add: main_records_def)
  have e: "Inserts (NewBTree 3) (take 12 main_records)
       = Some \<lparr>root = Node [7, 13, 16] [''Record 7'', ''Record 13'', ''Record 16'']
                  [Node [1, 3] [''Record 1'', ''Record 3''] [] True,
                   Node [10, 11] [''Record 10'', ''Record 11''] [] True,
                   Node [14, 15] [''Record 14'', ''Record 15''] [] True,
                   Node [18, 19, 24] [''Record 18'', ''Record 19'', ''Record 24''] [] True] False,
               degree = 3\<rparr>"
    by code_simp
  have l: "leaf_depths (Node [7, 13, 16] [''Record 7'', ''Record 13'', ''Record 16'']
                  [Node [1, 3] [''Record 1'', ''Record 3''] [] True,
                   Node [10, 11] [''Record 10'', ''Record 11''] [] True,
                   Node [14, 15] [''Record 14'', ''Record 15''] [] True,
                   Node [18, 19, 24] [''Record 18'', ''Record 19'', ''Record 24''] [] True] False)
       = [1, 1, 1, 1]"
    by simp
  from insert_preserves_invariants[OF h] h m e l show ?thesis by blast
qed

section \<open>Height growth\<close>

text \<open>
  C5. On a tree built by \<open>NewBTree(d)\<close>, \<open>d \<ge> 2\<close>, and any \<open>Insert\<close> calls, one more
  \<open>Insert\<close> returns, and the height changes in its first step only: the tree on whose root
  \<open>insertNonFull\<close> is called is one higher than the tree before exactly when the root held
  \<open>2 * d - 1\<close> keys (the root split), and has the same height otherwise; \<open>insertNonFull\<close>
  returns a root of the height it was given.
\<close>
theorem height_growth:
  assumes "2 \<le> d" "Inserts (NewBTree d) kvs = Some bt"
  shows "\<exists>bt1 bt'. Insert_root bt = Some bt1
      \<and> height (root bt1) =
          (if int (length (keys (root bt))) = 2 * d - 1 then height (root bt) + 1
           else height (root bt))
      \<and> insertNonFull d (root bt1) key value = Some (root bt')
      \<and> height (root bt') = height (root bt1)
      \<and> Insert bt key value = Some bt'"
proof -
  from built_unique[OF assms] obtain h where
    h: "degree bt = d" "wfnode d h True (root bt)" "sorted (map fst (entries (root bt)))"
    unfolding btree_inv_def by blast
  obtain ks vs cs lf where rt: "root bt = Node ks vs cs lf"
    using wf_not_Nil[OF h(2)] by blast
  let ?h = "if isFull d (root bt) = Some True then Suc h else h"
  from Insert_root_step[OF assms(1) h(1,2)] obtain bt1 where
    r: "Insert_root bt = Some bt1" "degree bt1 = d" "wfnode d ?h True (root bt1)"
      "int (length (keys (root bt1))) < 2 * d - 1" "entries (root bt1) = entries (root bt)"
    by blast
  have d1: "1 \<le> d" using assms(1) by simp
  have "sorted (map fst (entries (root bt1)))" using h(3) r(5) by simp
  from insertNonFull_correct[OF d1 r(3,4) this, of key "value"] obtain n' where
    n: "insertNonFull d (root bt1) key value = Some n'" "wfnode d ?h True n'"
    by blast
  have "height (root bt1) = Suc ?h" "height n' = Suc ?h" "height (root bt) = Suc h"
    using wf_height r(3) n(2) h(2) by blast+
  then show ?thesis
    using r(1,2) n(1) rt
    by (intro exI[of _ bt1] exI[of _ "bt1\<lparr>root := n'\<rparr>"]) (simp add: Insert_def)
qed

theorem height_growth_witness:
  "(2::int) \<le> 3 \<and> Inserts (NewBTree 3) (take 5 main_records)
      = Some \<lparr>root = Node [1, 3, 7, 10, 11]
                  [''Record 1'', ''Record 3'', ''Record 7'', ''Record 10'', ''Record 11''] [] True,
              degree = 3\<rparr>
   \<and> (\<exists>bt1 bt'. Insert_root \<lparr>root = Node [1, 3, 7, 10, 11]
                  [''Record 1'', ''Record 3'', ''Record 7'', ''Record 10'', ''Record 11''] [] True,
              degree = 3\<rparr> = Some bt1
      \<and> height (root bt1) = 2
      \<and> insertNonFull 3 (root bt1) 13 ''Record 13'' = Some (root bt')
      \<and> height (root bt') = height (root bt1)
      \<and> Insert \<lparr>root = Node [1, 3, 7, 10, 11]
                  [''Record 1'', ''Record 3'', ''Record 7'', ''Record 10'', ''Record 11''] [] True,
              degree = 3\<rparr> 13 ''Record 13'' = Some bt')"
proof -
  have h: "(2::int) \<le> 3" by simp
  have e: "Inserts (NewBTree 3) (take 5 main_records)
      = Some \<lparr>root = Node [1, 3, 7, 10, 11]
                  [''Record 1'', ''Record 3'', ''Record 7'', ''Record 10'', ''Record 11''] [] True,
              degree = 3\<rparr>"
    by code_simp
  from height_growth[OF h e, of 13 "''Record 13''"] e show ?thesis
    by (simp add: numeral_2_eq_2)
qed

section \<open>Inserting a key that is already there\<close>

text \<open>
  C6. \<open>Insert\<close> does not look for the key: on a tree built with \<open>d \<ge> 2\<close> by \<open>Insert\<close> calls
  one of which stored \<open>(k, v0)\<close>, \<open>Insert(k, v)\<close> returns, the stored entries are those from
  before together with the new \<open>(k, v)\<close> (one entry more; the entry \<open>(k, v0)\<close> is still there).
\<close>
theorem insert_existing_key:
  assumes "2 \<le> d" "Inserts (NewBTree d) kvs = Some bt" "(k, v0) \<in> set kvs"
  shows "\<exists>bt'. Insert bt k v = Some bt'
      \<and> mset (entries (root bt')) = add_mset (k, v) (mset (entries (root bt)))
      \<and> length (entries (root bt')) = Suc (length (entries (root bt)))
      \<and> (k, v0) \<in> set (entries (root bt)) \<and> (k, v0) \<in> set (entries (root bt'))
      \<and> (k, v) \<in> set (entries (root bt'))"
proof -
  note b = built_unique[OF assms(1,2)]
  from btree_inv_Insert[OF assms(1) b(1), of k v] obtain bt' where
    i: "Insert bt k v = Some bt'" "is_ins (k, v) (entries (root bt)) (entries (root bt'))"
    by blast
  have m: "mset (entries (root bt')) = add_mset (k, v) (mset (entries (root bt)))"
    using i(2) by (rule is_ins_mset)
  have "(k, v0) \<in> set (entries (root bt))"
    using assms(3) b(2) by (metis set_mset_mset)
  moreover have "set (entries (root bt')) = insert (k, v) (set (entries (root bt)))"
    using arg_cong[OF m, of set_mset] by simp
  moreover have "length (entries (root bt')) = Suc (length (entries (root bt)))"
    using arg_cong[OF m, of size] by simp
  ultimately show ?thesis using i(1) m by auto
qed

theorem insert_existing_key_witness:
  "(2::int) \<le> 2 \<and> Inserts (NewBTree 2) [(5, ''a''), (7, ''b'')]
       = Some \<lparr>root = Node [5, 7] [''a'', ''b''] [] True, degree = 2\<rparr>
   \<and> (5, ''a'') \<in> set [(5, ''a''), (7, ''b'')]
   \<and> Insert \<lparr>root = Node [5, 7] [''a'', ''b''] [] True, degree = 2\<rparr> 5 ''c''
       = Some \<lparr>root = Node [5, 5, 7] [''a'', ''c'', ''b''] [] True, degree = 2\<rparr>
   \<and> (\<exists>bt'. Insert \<lparr>root = Node [5, 7] [''a'', ''b''] [] True, degree = 2\<rparr> 5 ''c'' = Some bt'
      \<and> mset (entries (root bt'))
          = add_mset (5, ''c'') (mset (entries (Node [5, 7] [''a'', ''b''] [] True)))
      \<and> (5, ''a'') \<in> set (entries (root bt')) \<and> (5, ''c'') \<in> set (entries (root bt')))"
proof -
  have h: "(2::int) \<le> 2" by simp
  have e: "Inserts (NewBTree 2) [(5, ''a''), (7, ''b'')]
       = Some \<lparr>root = Node [5, 7] [''a'', ''b''] [] True, degree = 2\<rparr>"
    by code_simp
  have m: "(5, ''a'') \<in> set [(5, ''a''), (7, ''b'')]" by simp
  have i: "Insert \<lparr>root = Node [5, 7] [''a'', ''b''] [] True, degree = 2\<rparr> 5 ''c''
       = Some \<lparr>root = Node [5, 5, 7] [''a'', ''c'', ''b''] [] True, degree = 2\<rparr>"
    by code_simp
  from insert_existing_key[OF h e m, of "''c''"] e i show ?thesis by simp
qed

section \<open>Order independence\<close>

text \<open>The in-order walk of the keys of a tree.\<close>
definition inorder_keys :: "BTree \<Rightarrow> int list" where
  "inorder_keys bt = map fst (entries (root bt))"

text \<open>
  C7. For every degree \<open>d \<ge> 2\<close>, inserting the same set of distinct keys in two orders gives
  trees with the same in-order key sequence: the sorted sequence of the keys inserted.
\<close>
theorem order_independence:
  assumes "2 \<le> d" "distinct (map fst kvs1)" "distinct (map fst kvs2)"
    "set (map fst kvs1) = set (map fst kvs2)"
  shows "\<exists>bt1 bt2. Inserts (NewBTree d) kvs1 = Some bt1 \<and> Inserts (NewBTree d) kvs2 = Some bt2
      \<and> inorder_keys bt1 = inorder_keys bt2
      \<and> inorder_keys bt1 = sorted_list_of_set (set (map fst kvs1))"
proof -
  have *: "\<exists>bt. Inserts (NewBTree d) kvs = Some bt
             \<and> inorder_keys bt = sorted_list_of_set (set (map fst kvs))"
    if "distinct (map fst kvs)" for kvs
  proof -
    from built_distinct[OF assms(1) that] obtain bt where
      b: "Inserts (NewBTree d) kvs = Some bt" "sorted_wrt (<) (map fst (entries (root bt)))"
        "mset (entries (root bt)) = mset kvs"
      by blast
    have "mset (map fst (entries (root bt))) = mset (map fst kvs)"
      using b(3) by (metis mset_map)
    then have "set (map fst (entries (root bt))) = set (map fst kvs)"
      by (metis set_mset_mset)
    moreover have "sorted_list_of_set (set (map fst (entries (root bt)))) = map fst (entries (root bt))"
      using b(2) by (intro sorted_list_of_set.idem_if_sorted_distinct) (simp_all add: strict_sorted_iff)
    ultimately show ?thesis using b(1) by (auto simp: inorder_keys_def)
  qed
  from *[OF assms(2)] *[OF assms(3)] assms(4) show ?thesis by auto
qed

theorem order_independence_witness:
  "(2::int) \<le> 2
   \<and> distinct (map fst [(1::int, ''a''), (2, ''b''), (3, ''c''), (4, ''d'')])
   \<and> distinct (map fst [(4::int, ''d''), (2, ''b''), (3, ''c''), (1, ''a'')])
   \<and> set (map fst [(1, ''a''), (2, ''b''), (3, ''c''), (4::int, ''d'')])
       = set (map fst [(4, ''d''), (2, ''b''), (3, ''c''), (1, ''a'')])
   \<and> (\<exists>bt1 bt2. Inserts (NewBTree 2) [(1, ''a''), (2, ''b''), (3, ''c''), (4, ''d'')] = Some bt1
      \<and> Inserts (NewBTree 2) [(4, ''d''), (2, ''b''), (3, ''c''), (1, ''a'')] = Some bt2
      \<and> inorder_keys bt1 = inorder_keys bt2)"
proof -
  have h: "(2::int) \<le> 2"
    "distinct (map fst [(1::int, ''a''), (2, ''b''), (3, ''c''), (4, ''d'')])"
    "distinct (map fst [(4::int, ''d''), (2, ''b''), (3, ''c''), (1, ''a'')])"
    "set (map fst [(1, ''a''), (2, ''b''), (3, ''c''), (4::int, ''d'')])
       = set (map fst [(4, ''d''), (2, ''b''), (3, ''c''), (1, ''a'')])"
    by auto
  from order_independence[OF h] h show ?thesis by blast
qed

section \<open>The nodes insertNonFull is called on\<close>

text \<open>
  The nodes that the invocations of \<open>insertNonFull\<close> receive, the top-level call first: the
  function follows the recursion of \<open>insertNonFull\<close> (the node itself, then, in an internal
  node, the child chosen by \<open>insertNonFull_descend\<close>) and records the argument of each call.
\<close>
function insertNonFull_calls :: "int \<Rightarrow> BTreeNode \<Rightarrow> int \<Rightarrow> BTreeNode list" where
  "insertNonFull_calls d Nil key = [Nil]"
| "insertNonFull_calls d (Node ks vs cs lf) key =
     Node ks vs cs lf #
     (if lf then []
      else (case insertNonFull_descend d (Node ks vs cs lf) key of
              None \<Rightarrow> []
            | Some (node', i) \<Rightarrow>
                (case node' of
                   Nil \<Rightarrow> []
                 | Node ks' vs' cs' lf' \<Rightarrow>
                     (case index cs' i of
                        None \<Rightarrow> []
                      | Some c \<Rightarrow> insertNonFull_calls d c key))))"
  by pat_completeness auto
termination
  by (relation "measure (\<lambda>(d, n, key). size n)")
    (auto dest: insertNonFull_descend_size)

declare insertNonFull_calls.simps(2) [simp del]

text \<open>The calls of \<open>insertNonFull\<close> that one \<open>Insert\<close> makes.\<close>
definition Insert_calls :: "BTree \<Rightarrow> int \<Rightarrow> BTreeNode list" where
  "Insert_calls bt key =
     (case Insert_root bt of
        None \<Rightarrow> []
      | Some bt1 \<Rightarrow> insertNonFull_calls (degree bt1) (root bt1) key)"

lemma calls_not_full:
  assumes "1 \<le> d" "wfnode d h r n" "int (length (keys n)) < 2 * d - 1"
    "sorted (map fst (entries n))"
  shows "insertNonFull_calls d n key \<noteq> []
       \<and> (\<forall>m \<in> set (insertNonFull_calls d n key). m \<noteq> Nil \<and> int (length (keys m)) < 2 * d - 1)
       \<and> leaf (last (insertNonFull_calls d n key))"
  using assms(2-)
proof (induction h arbitrary: n r)
  case 0
  then show ?case by (cases n) (auto simp: insertNonFull_calls.simps)
next
  case (Suc h)
  then obtain ks vs cs where n: "n = Node ks vs cs False"
    by (cases n) auto
  from descend_step[OF assms(1) Suc.prems(1)[unfolded n], of key] Suc.prems(2,3) n
  obtain ks' vs' cs' i A B where
    ds: "insertNonFull_descend d (Node ks vs cs False) key = Some (Node ks' vs' cs' False, int i)"
    and i: "i < length cs'"
    and wf': "wfnode d (Suc h) r (Node ks' vs' cs' False)"
    and nfc: "\<exists>fks fvs fcs flf. cs' ! i = Node fks fvs fcs flf \<and> int (length fks) < 2 * d - 1"
    and e: "entries (Node ks vs cs False) = A @ entries (cs' ! i) @ B"
    by auto
  have wc: "wfnode d h False (cs' ! i)" using wf' i by simp
  have nf: "int (length (keys (cs' ! i))) < 2 * d - 1" using nfc by auto
  have sc: "sorted (map fst (entries (cs' ! i)))"
    using Suc.prems(3) unfolding n e by (simp add: sorted_append)
  have "insertNonFull_calls d n key = n # insertNonFull_calls d (cs' ! i) key"
    unfolding n using ds i by (simp add: insertNonFull_calls.simps index_def)
  then show ?case
    using Suc.IH[OF wc nf sc] Suc.prems(2) n by auto
qed

text \<open>
  C9. On a tree built by \<open>NewBTree(d)\<close>, \<open>d \<ge> 2\<close>, and any \<open>Insert\<close> calls, every
  invocation of \<open>insertNonFull\<close> that a further \<open>Insert\<close> makes (the top-level one and every
  recursive one, down to a leaf) receives a node with fewer than \<open>2 * d - 1\<close> keys; the
  \<open>Insert\<close> returns, and no node of the tree it leaves holds more than \<open>2 * d - 1\<close> keys.
\<close>
theorem insertNonFull_never_on_full_node:
  assumes "2 \<le> d" "Inserts (NewBTree d) kvs = Some bt"
  shows "Insert_calls bt key \<noteq> []
       \<and> (\<forall>n \<in> set (Insert_calls bt key). n \<noteq> Nil \<and> int (length (keys n)) < 2 * d - 1)
       \<and> leaf (last (Insert_calls bt key))
       \<and> (\<exists>bt'. Insert bt key value = Some bt'
            \<and> (\<forall>n \<in> set (nodes (root bt')). int (length (keys n)) \<le> 2 * d - 1))"
proof -
  from built_unique[OF assms] obtain h where
    h: "degree bt = d" "wfnode d h True (root bt)" "sorted (map fst (entries (root bt)))"
    and inv: "btree_inv d bt"
    unfolding btree_inv_def by blast
  let ?h = "if isFull d (root bt) = Some True then Suc h else h"
  from Insert_root_step[OF assms(1) h(1,2)] obtain bt1 where
    r: "Insert_root bt = Some bt1" "degree bt1 = d" "wfnode d ?h True (root bt1)"
      "int (length (keys (root bt1))) < 2 * d - 1" "entries (root bt1) = entries (root bt)"
    by blast
  have d1: "1 \<le> d" using assms(1) by simp
  have s: "sorted (map fst (entries (root bt1)))" using h(3) r(5) by simp
  have c: "Insert_calls bt key = insertNonFull_calls d (root bt1) key"
    using r(1,2) by (simp add: Insert_calls_def)
  from btree_inv_Insert[OF assms(1) inv, of key "value"] obtain bt' h' where
    i: "Insert bt key value = Some bt'" "wfnode d h' True (root bt')"
    unfolding btree_inv_def by blast
  show ?thesis
    using calls_not_full[OF d1 r(3,4) s, of key] i(1) wf_key_max[OF i(2)] unfolding c by blast
qed

theorem insertNonFull_never_on_full_node_witness:
  "(2::int) \<le> 3
   \<and> Inserts (NewBTree 3) (take 9 main_records)
       = Some \<lparr>root = Node [7, 13] [''Record 7'', ''Record 13'']
                  [Node [1, 3] [''Record 1'', ''Record 3''] [] True,
                   Node [10, 11] [''Record 10'', ''Record 11''] [] True,
                   Node [14, 15, 18] [''Record 14'', ''Record 15'', ''Record 18''] [] True] False,
               degree = 3\<rparr>
   \<and> (\<exists>calls. calls = Insert_calls \<lparr>root = Node [7, 13] [''Record 7'', ''Record 13'']
                  [Node [1, 3] [''Record 1'', ''Record 3''] [] True,
                   Node [10, 11] [''Record 10'', ''Record 11''] [] True,
                   Node [14, 15, 18] [''Record 14'', ''Record 15'', ''Record 18''] [] True] False,
               degree = 3\<rparr> 16
      \<and> calls = [Node [7, 13] [''Record 7'', ''Record 13'']
                  [Node [1, 3] [''Record 1'', ''Record 3''] [] True,
                   Node [10, 11] [''Record 10'', ''Record 11''] [] True,
                   Node [14, 15, 18] [''Record 14'', ''Record 15'', ''Record 18''] [] True] False,
                 Node [14, 15, 18] [''Record 14'', ''Record 15'', ''Record 18''] [] True]
      \<and> (\<forall>n \<in> set calls. n \<noteq> Nil \<and> int (length (keys n)) < 2 * 3 - 1)
      \<and> leaf (last calls))"
proof -
  have h: "(2::int) \<le> 3" by simp
  have e: "Inserts (NewBTree 3) (take 9 main_records)
       = Some \<lparr>root = Node [7, 13] [''Record 7'', ''Record 13'']
                  [Node [1, 3] [''Record 1'', ''Record 3''] [] True,
                   Node [10, 11] [''Record 10'', ''Record 11''] [] True,
                   Node [14, 15, 18] [''Record 14'', ''Record 15'', ''Record 18''] [] True] False,
               degree = 3\<rparr>"
    by code_simp
  have c: "Insert_calls \<lparr>root = Node [7, 13] [''Record 7'', ''Record 13'']
                  [Node [1, 3] [''Record 1'', ''Record 3''] [] True,
                   Node [10, 11] [''Record 10'', ''Record 11''] [] True,
                   Node [14, 15, 18] [''Record 14'', ''Record 15'', ''Record 18''] [] True] False,
               degree = 3\<rparr> 16
      = [Node [7, 13] [''Record 7'', ''Record 13'']
                  [Node [1, 3] [''Record 1'', ''Record 3''] [] True,
                   Node [10, 11] [''Record 10'', ''Record 11''] [] True,
                   Node [14, 15, 18] [''Record 14'', ''Record 15'', ''Record 18''] [] True] False,
                 Node [14, 15, 18] [''Record 14'', ''Record 15'', ''Record 18''] [] True]"
    by code_simp
  from insertNonFull_never_on_full_node[OF h e, of 16 "''Record 16''"] h e c
  show ?thesis by simp
qed

section \<open>splitChild\<close>

lemma median_not_in_halves:
  assumes "sorted_wrt (<) (ks :: int list)" "m < length ks"
  shows "ks ! m \<notin> set (take m ks)" "ks ! m \<notin> set (drop (Suc m) ks)"
proof -
  have "distinct (take m ks @ ks ! m # drop (Suc m) ks)"
    using assms by (simp add: id_take_nth_drop[symmetric] strict_sorted_iff)
  then show "ks ! m \<notin> set (take m ks)" "ks ! m \<notin> set (drop (Suc m) ks)"
    by auto
qed

text \<open>
  C3. Let \<open>d \<ge> 2\<close> and let the parent (with one child more than keys, not full) have at
  \<open>idx\<close> a child with exactly \<open>2 * d - 1\<close> strictly ascending keys (and as many values; an
  internal child has \<open>2 * d\<close> children). Then \<open>splitChild(parent, idx)\<close> returns; the child at
  \<open>idx\<close> keeps the keys and values at indices \<open>[0, d - 1)\<close>; the key and value at index
  \<open>d - 1\<close> are inserted into the parent at position \<open>idx\<close>; the keys and values at indices
  \<open>(d - 1, 2 * d - 1)\<close> are those of one new sibling, inserted into the parent's children right
  after \<open>idx\<close>; an internal child keeps its first \<open>d\<close> children and the sibling gets the other
  \<open>d\<close>; the promoted key is in neither of the two nodes; and the sibling's number of
  children is one more than its number of keys. Children are present only on internal nodes,
  so the count is that of an internal child's sibling; the sibling of a leaf is a leaf and has
  an empty \<open>children\<close>.
\<close>
theorem splitChild_partition:
  assumes "2 \<le> d" "idx < length pcs" "length pcs = Suc (length pks)" "length pvs = length pks"
    "int (length pks) < 2 * d - 1"
    "pcs ! idx = Node fks fvs fcs flf" "int (length fks) = 2 * d - 1" "length fvs = length fks"
    "sorted_wrt (<) fks" "\<not> flf \<Longrightarrow> int (length fcs) = 2 * d"
  shows "\<exists>ok ov oc sk sv sc.
      splitChild d (Node pks pvs pcs plf) (int idx)
        = Some (Node (take idx pks @ fks ! nat (d - 1) # drop idx pks)
                     (take idx pvs @ fvs ! nat (d - 1) # drop idx pvs)
                     (take idx pcs @ Node ok ov oc flf # Node sk sv sc flf # drop (Suc idx) pcs)
                     plf)
    \<and> ok = take (nat (d - 1)) fks \<and> ov = take (nat (d - 1)) fvs
    \<and> sk = drop (nat d) fks \<and> sv = drop (nat d) fvs
    \<and> oc = (if flf then fcs else take (nat d) fcs)
    \<and> sc = (if flf then [] else drop (nat d) fcs)
    \<and> fks ! nat (d - 1) \<notin> set ok \<and> fks ! nat (d - 1) \<notin> set sk
    \<and> int (length ok) = d - 1 \<and> int (length sk) = d - 1
    \<and> (\<not> flf \<longrightarrow> length sc = Suc (length sk) \<and> length oc = Suc (length ok))"
proof -
  have d1: "1 \<le> d" using assms(1) by simp
  have b: "d \<le> int (length fks)" "d \<le> int (length fvs)" "\<not> flf \<Longrightarrow> d \<le> int (length fcs)"
    using assms(1,7,8,10) by simp_all
  note s = splitChild_eq[OF assms(2,4,3,6) d1 b, of plf]
  have m: "nat (d - 1) < length fks" "Suc (nat (d - 1)) = nat d"
    using assms(1,7) by linarith+
  have n: "fks ! nat (d - 1) \<notin> set (take (nat (d - 1)) fks)"
    "fks ! nat (d - 1) \<notin> set (drop (nat d) fks)"
    using median_not_in_halves[OF assms(9) m(1)] m(2) by simp_all
  have l: "int (length (take (nat (d - 1)) fks)) = d - 1" "int (length (drop (nat d) fks)) = d - 1"
    using assms(1,7) by simp_all
  have c: "\<not> flf \<Longrightarrow> length (drop (nat d) fcs) = Suc (length (drop (nat d) fks))"
    "\<not> flf \<Longrightarrow> length (take (nat d) fcs) = Suc (length (take (nat (d - 1)) fks))"
    using assms(1,7,10) by simp_all
  show ?thesis
    using s n l c by simp
qed

theorem splitChild_partition_witness:
  "(2::int) \<le> 2
   \<and> (0::nat) < length [Node [2, 4, 6] [''b'', ''d'', ''f''] [Node [1] [''a''] [] True, Node [3] [''c''] [] True, Node [5] [''e''] [] True, Node [7] [''g''] [] True] False]
   \<and> int (length ([] :: int list)) < 2 * 2 - 1
   \<and> int (length [2::int, 4, 6]) = 2 * 2 - 1 \<and> sorted_wrt (<) [2::int, 4, 6]
   \<and> int (length [Node [1] [''a''] [] True, Node [3] [''c''] [] True, Node [5] [''e''] [] True, Node [7] [''g''] [] True]) = 2 * 2
   \<and> splitChild 2 (Node [] [] [Node [2, 4, 6] [''b'', ''d'', ''f''] [Node [1] [''a''] [] True, Node [3] [''c''] [] True, Node [5] [''e''] [] True, Node [7] [''g''] [] True] False] False) 0
       = Some (Node [4] [''d''] [Node [2] [''b''] [Node [1] [''a''] [] True, Node [3] [''c''] [] True] False, Node [6] [''f''] [Node [5] [''e''] [] True, Node [7] [''g''] [] True] False] False)
   \<and> (\<exists>ok sk oc sc. splitChild 2 (Node [] [] [Node [2, 4, 6] [''b'', ''d'', ''f''] [Node [1] [''a''] [] True, Node [3] [''c''] [] True, Node [5] [''e''] [] True, Node [7] [''g''] [] True] False] False) 0
       = Some (Node [4] [''d''] [Node ok [''b''] oc False, Node sk [''f''] sc False] False)
       \<and> 4 \<notin> set ok \<and> 4 \<notin> set sk
       \<and> length sc = Suc (length sk) \<and> length oc = Suc (length ok))"
proof -
  have h: "(2::int) \<le> 2"
    "(0::nat) < length [Node [2, 4, 6] [''b'', ''d'', ''f''] [Node [1] [''a''] [] True, Node [3] [''c''] [] True, Node [5] [''e''] [] True, Node [7] [''g''] [] True] False]"
    "length [Node [2, 4, 6] [''b'', ''d'', ''f''] [Node [1] [''a''] [] True, Node [3] [''c''] [] True, Node [5] [''e''] [] True, Node [7] [''g''] [] True] False] = Suc (length ([] :: int list))"
    "length ([] :: string list) = length ([] :: int list)"
    "int (length ([] :: int list)) < 2 * 2 - 1"
    "[Node [2, 4, 6] [''b'', ''d'', ''f''] [Node [1] [''a''] [] True, Node [3] [''c''] [] True, Node [5] [''e''] [] True, Node [7] [''g''] [] True] False] ! 0
       = Node [2, 4, 6] [''b'', ''d'', ''f''] [Node [1] [''a''] [] True, Node [3] [''c''] [] True, Node [5] [''e''] [] True, Node [7] [''g''] [] True] False"
    "int (length [2::int, 4, 6]) = 2 * 2 - 1"
    "length [''b'', ''d'', ''f''] = length [2::int, 4, 6]"
    "sorted_wrt (<) [2::int, 4, 6]"
    "\<not> False \<Longrightarrow> int (length [Node [1] [''a''] [] True, Node [3] [''c''] [] True, Node [5] [''e''] [] True, Node [7] [''g''] [] True]) = 2 * 2"
    by simp_all
  have e: "splitChild 2 (Node [] [] [Node [2, 4, 6] [''b'', ''d'', ''f''] [Node [1] [''a''] [] True, Node [3] [''c''] [] True, Node [5] [''e''] [] True, Node [7] [''g''] [] True] False] False) 0
       = Some (Node [4] [''d''] [Node [2] [''b''] [Node [1] [''a''] [] True, Node [3] [''c''] [] True] False, Node [6] [''f''] [Node [5] [''e''] [] True, Node [7] [''g''] [] True] False] False)"
    by code_simp
  from splitChild_partition[OF h, of False] h(1,2,5,7,9) h(10) e show ?thesis
    by simp
qed

section \<open>Construction\<close>

lemma Insert_fresh:
  "Insert (NewBTree d) key value = Some \<lparr>root = Node [key] [value] [] True, degree = d\<rparr>"
proof -
  have "(0::int) \<noteq> 2 * d - 1" by presburger
  then have "Insert_root (NewBTree d) = Some (NewBTree d)"
    by (simp add: Insert_root_def NewBTree_def)
  then show ?thesis
    by (simp add: Insert_def NewBTree_def insertNonFull_leaf ipos_def)
qed

text \<open>
  C4, as the code has it. \<open>NewBTree(degree)\<close> has no failing branch: for every degree, also
  one below 2, it returns the tree with a single empty leaf as root and the degree as given.
  The degree is validated neither there nor later: \<open>Search\<close> and a first \<open>Insert\<close> on the new
  tree return for every degree.
\<close>
theorem NewBTree_any_degree:
  "NewBTree d = \<lparr>root = Node [] [] [] True, degree = d\<rparr>
   \<and> Search (NewBTree d) key = Some ('''', False)
   \<and> Insert (NewBTree d) key value = Some \<lparr>root = Node [key] [value] [] True, degree = d\<rparr>"
  by (simp add: Insert_fresh) (simp add: NewBTree_def Search_def searchNode_loop_empty)

text \<open>
  C4, as stated, fails at degree 1: the construction returns a tree, and the first two inserts
  and a search on it return as well.
\<close>
theorem NewBTree_degree_1_succeeds:
  "(1::int) < 2
   \<and> NewBTree 1 = \<lparr>root = Node [] [] [] True, degree = 1\<rparr>
   \<and> Inserts (NewBTree 1) [(5, ''a''), (7, ''b'')]
       = Some \<lparr>root = Node [5] [''a''] [Node [] [] [] True, Node [7] [''b''] [] True] False,
               degree = 1\<rparr>
   \<and> Inserts (NewBTree 1) [(5, ''a''), (7, ''b'')] \<bind> (\<lambda>bt. Search bt 7) = Some (''b'', True)"
  by code_simp

section \<open>Lookup\<close>

text \<open>Where the left-to-right scan of \<open>searchNode\<close> stops: the number of leading keys that are
  less than \<open>key\<close>.\<close>
definition spos :: "int list \<Rightarrow> int \<Rightarrow> nat" where
  "spos ks key = length (takeWhile (\<lambda>x. x < key) ks)"

lemma spos_le: "spos ks key \<le> length ks"
  by (simp add: spos_def length_takeWhile_le)

lemma spos_before: "j < spos ks key \<Longrightarrow> ks ! j < key"
  unfolding spos_def using nth_mem[of j "takeWhile (\<lambda>x. x < key) ks"]
  by (auto simp: takeWhile_nth dest: set_takeWhileD)

lemma spos_at: "spos ks key < length ks \<Longrightarrow> key \<le> ks ! spos ks key"
  unfolding spos_def using nth_length_takeWhile[of "\<lambda>x. x < key" ks] by auto

lemma searchNode_loop_eq:
  "searchNode_loop (xs @ ys) key (int (length xs)) = Some (int (length xs + spos ys key))"
proof (induction ys arbitrary: xs)
  case Nil
  show ?case by (subst searchNode_loop.simps) (simp add: spos_def)
next
  case (Cons y ys)
  have "searchNode_loop (xs @ y # ys) key (int (length xs))
      = (if key > y then searchNode_loop ((xs @ [y]) @ ys) key (int (length (xs @ [y])))
         else Some (int (length xs)))"
    by (subst searchNode_loop.simps) (simp add: index_def add.commute)
  then show ?case using Cons[of "xs @ [y]"] by (simp add: spos_def)
qed

lemma searchNode_loop_spos: "searchNode_loop ks key 0 = Some (int (spos ks key))"
  using searchNode_loop_eq[of "[]" ks key] by simp

lemma spos_not_in:
  assumes "sorted_wrt (<) ks" "\<not> (spos ks key < length ks \<and> ks ! spos ks key = key)"
  shows "key \<notin> set ks"
proof
  assume "key \<in> set ks"
  then obtain j where j: "j < length ks" "ks ! j = key" by (auto simp: in_set_conv_nth)
  show False
  proof (cases "j < spos ks key")
    case True
    then show False using spos_before[of j ks key] j by simp
  next
    case False
    then have p: "spos ks key < length ks" using j by simp
    then have "key < ks ! spos ks key" using spos_at[OF p] assms(2) by simp
    moreover have "ks ! spos ks key \<le> ks ! j"
      using False j assms(1) by (intro sorted_nth_mono) (simp_all add: strict_sorted_iff)
    ultimately show False using j by simp
  qed
qed

lemma walk_before_0: "walk_before 0 n = []"
  by (simp add: walk_before_def)

lemma walk_before_le:
  assumes "length cs = Suc (length ks)" "length vs = length ks" "0 < p" "p \<le> length ks"
    "sorted (map fst (walk_before p (Node ks vs cs False)))"
  shows "\<forall>a \<in> set (walk_before p (Node ks vs cs False)). fst a \<le> ks ! (p - 1)"
proof -
  have ne: "take p (zip ks vs) \<noteq> []" using assms(2,3,4) by (cases ks; cases vs) auto
  have "last (take p (zip ks vs)) = zip ks vs ! (p - 1)"
    using assms(2,3,4) ne by (simp add: last_conv_nth)
  then have l: "fst (last (take p (zip ks vs))) = ks ! (p - 1)"
    using assms(2,3,4) by simp
  from pre_last[of "take p (map entries cs)" "take p (zip ks vs)"] ne
  obtain A where A: "walk_before p (Node ks vs cs False) = A @ [last (take p (zip ks vs))]"
    using assms(1,2,4) by (auto simp: walk_before_def)
  have "\<forall>a \<in> set (map fst A @ [ks ! (p - 1)]). a \<le> ks ! (p - 1)"
    using assms(5) unfolding A by (intro sorted_le_last) (simp add: l)
  then show ?thesis unfolding A using l by auto
qed

lemma walk_after_end:
  "length cs = Suc (length ks) \<Longrightarrow> length vs = length ks \<Longrightarrow>
   walk_after (length ks) (Node ks vs cs False) = []"
  by (simp add: walk_after_def)

lemma walk_after_ge:
  assumes "length vs = length ks" "p < length ks"
    "sorted (map fst (walk_after p (Node ks vs cs False)))"
  shows "\<forall>b \<in> set (walk_after p (Node ks vs cs False)). ks ! p \<le> fst b"
    and "(ks ! p, vs ! p) \<in> set (walk_after p (Node ks vs cs False))"
proof -
  have "drop p (zip ks vs) = (ks ! p, vs ! p) # drop (Suc p) (zip ks vs)"
    using assms(1,2) by (simp flip: Cons_nth_drop_Suc)
  then obtain B where B: "walk_after p (Node ks vs cs False) = (ks ! p, vs ! p) # B"
    by (simp add: walk_after_def)
  show "\<forall>b \<in> set (walk_after p (Node ks vs cs False)). ks ! p \<le> fst b"
    using assms(3) unfolding B by auto
  show "(ks ! p, vs ! p) \<in> set (walk_after p (Node ks vs cs False))"
    unfolding B by simp
qed

lemma map_of_mid:
  assumes "key \<notin> fst ` set A" "key \<notin> fst ` set B"
  shows "map_of (A @ X @ B) key = map_of X key"
proof -
  have "map_of A key = None" "map_of B key = None"
    using assms by (simp_all add: map_of_eq_None_iff)
  then show ?thesis by (simp add: map_add_def split: option.split)
qed

lemma searchNode_correct:
  assumes "wfnode d h r n" "sorted_wrt (<) (map fst (entries n))"
  shows "searchNode n key
       = Some (case map_of (entries n) key of Some v \<Rightarrow> (v, True) | None \<Rightarrow> ('''', False))"
  using assms
proof (induction h arbitrary: n r)
  case 0
  then obtain ks vs where n: "n = Node ks vs [] True" by (cases n) auto
  from 0 n have l: "length vs = length ks" by simp
  with 0 n have s: "sorted_wrt (<) ks" by simp
  let ?p = "spos ks key"
  show ?case
  proof (cases "?p < length ks \<and> ks ! ?p = key")
    case True
    then have "map_of (zip ks vs) (ks ! ?p) = Some (vs ! ?p)"
      using l s by (intro map_of_zip_nth) (simp_all add: strict_sorted_iff)
    then show ?thesis
      using True l n by (auto simp: searchNode_loop_spos index_def)
  next
    case False
    from spos_not_in[OF s False] have m: "map_of (zip ks vs) key = None"
      using l by (simp add: map_of_zip_is_None)
    have "searchNode n key = Some ('''', False)"
      using False l n by (auto simp: searchNode_loop_spos index_def)
    then show ?thesis
      by (simp add: m n)
  qed
next
  case (Suc h)
  then obtain ks vs cs where n: "n = Node ks vs cs False" by (cases n) auto
  note l = wf_Suc_D[OF Suc.prems(1)[unfolded n]]
  let ?n = "Node ks vs cs False" and ?p = "spos ks key"
  have p: "?p \<le> length ks" "?p < length cs" using spos_le[of ks key] l(2) by simp_all
  have ar: "entries ?n = walk_before ?p ?n @ entries (cs ! ?p) @ walk_after ?p ?n"
    using l(2,3) p(1) by (rule entries_around)
  have ss: "sorted (map fst (entries ?n))" "distinct (map fst (entries ?n))"
    using Suc.prems(2) n by (simp_all add: strict_sorted_iff)
  have s3: "sorted (map fst (walk_before ?p ?n))" "sorted (map fst (walk_after ?p ?n))"
    using ss(1) unfolding ar by (simp_all add: sorted_append)
  have sc: "sorted_wrt (<) (map fst (entries (cs ! ?p)))"
    using Suc.prems(2) unfolding n ar by (simp add: sorted_wrt_append)
  show ?case
  proof (cases "?p < length ks \<and> ks ! ?p = key")
    case True
    then have "(key, vs ! ?p) \<in> set (entries ?n)"
      using walk_after_ge(2)[OF l(3) _ s3(2)] unfolding ar by auto
    then have "map_of (entries ?n) key = Some (vs ! ?p)"
      using ss(2) by (intro map_of_is_SomeI)
    then show ?thesis
      using True l(3) unfolding n by (simp add: searchNode_loop_spos index_def)
  next
    case False
    have A: "key \<notin> fst ` set (walk_before ?p ?n)"
    proof (cases "?p = 0")
      case True
      then show ?thesis by (simp add: walk_before_0)
    next
      case f: False
      then have "ks ! (?p - 1) < key" by (intro spos_before) simp
      then show ?thesis
        using walk_before_le[OF l(2,3) _ p(1) s3(1)] f by fastforce
    qed
    have B: "key \<notin> fst ` set (walk_after ?p ?n)"
    proof (cases "?p = length ks")
      case True
      then show ?thesis using walk_after_end[OF l(2,3)] by simp
    next
      case f: False
      then have q: "?p < length ks" using p(1) by simp
      then have "key < ks ! ?p" using spos_at[OF q] False by simp
      then show ?thesis
        using walk_after_ge(1)[OF l(3) q s3(2)] by fastforce
    qed
    have wc: "wfnode d h False (cs ! ?p)" using l(6) p(2) by simp
    have "map_of (entries ?n) key = map_of (entries (cs ! ?p)) key"
      unfolding ar using A B by (rule map_of_mid)
    moreover have "searchNode ?n key = searchNode (cs ! ?p) key"
      using False p(2) l(3) by (auto simp: searchNode_loop_spos index_def)
    ultimately show ?thesis
      using Suc.IH[OF wc sc] n by simp
  qed
qed

text \<open>
  C2. For every degree \<open>d \<ge> 2\<close> and every sequence of \<open>Insert(key, value)\<close> calls with
  pairwise distinct keys on \<open>NewBTree(d)\<close>: the calls return, and on the tree they leave
  \<open>Search(key)\<close> returns the value inserted with the key and found = true for every inserted
  key, and the empty string and found = false for every other key.
\<close>
theorem lookup_correct:
  assumes "2 \<le> d" "distinct (map fst kvs)"
  shows "\<exists>bt. Inserts (NewBTree d) kvs = Some bt
      \<and> (\<forall>(k, v) \<in> set kvs. Search bt k = Some (v, True))
      \<and> (\<forall>k. k \<notin> fst ` set kvs \<longrightarrow> Search bt k = Some ('''', False))"
proof -
  from built_distinct[OF assms] obtain bt h where
    b: "Inserts (NewBTree d) kvs = Some bt" "wfnode d h True (root bt)"
      "sorted_wrt (<) (map fst (entries (root bt)))" "mset (entries (root bt)) = mset kvs"
    by blast
  have st: "set (entries (root bt)) = set kvs"
    using b(4) by (metis set_mset_mset)
  have ds: "distinct (map fst (entries (root bt)))"
    using b(3) by (simp add: strict_sorted_iff)
  note sc = searchNode_correct[OF b(2,3)]
  have "Search bt k = Some (v, True)" if "(k, v) \<in> set kvs" for k v
  proof -
    have "map_of (entries (root bt)) k = Some v"
      using ds that st by (intro map_of_is_SomeI) simp_all
    then show ?thesis using sc[of k] by (simp add: Search_def)
  qed
  moreover have "Search bt k = Some ('''', False)" if "k \<notin> fst ` set kvs" for k
  proof -
    have "map_of (entries (root bt)) k = None"
      using that st by (simp add: map_of_eq_None_iff)
    then show ?thesis using sc[of k] by (simp add: Search_def)
  qed
  ultimately show ?thesis using b(1) by auto
qed

theorem lookup_correct_witness:
  "(2::int) \<le> 3 \<and> distinct (map fst main_records)
   \<and> (10, ''Record 10'') \<in> set main_records \<and> 99 \<notin> fst ` set main_records
   \<and> (\<exists>bt. Inserts (NewBTree 3) main_records = Some bt
      \<and> Search bt 10 = Some (''Record 10'', True) \<and> Search bt 99 = Some ('''', False))"
proof -
  have h: "(2::int) \<le> 3" "distinct (map fst main_records)"
    by (simp_all add: main_records_def)
  have m: "(10, ''Record 10'') \<in> set main_records" "99 \<notin> fst ` set main_records"
    by (simp_all add: main_records_def)
  from lookup_correct[OF h] m h show ?thesis by blast
qed

end
